theory Spec2Isabelle
  imports Complex_Main "HOL-Library.Multiset"
begin

section \<open>Python strings\<close>

text \<open>
  A Python \<open>str\<close> is modelled as a \<open>string\<close>, a list of \<open>char\<close>. A \<open>char\<close>
  is one code point in the range 0..255 (Latin-1), so \<open>length\<close> counts characters as
  Python's \<open>len\<close> does. Whitespace is what \<open>str.isspace\<close>, \<open>str.strip\<close> and
  the regular expression class \<open>\s\<close> accept in that range.
\<close>

definition is_space :: "char \<Rightarrow> bool" where
  "is_space c = (of_char c \<in> {9, 10, 11, 12, 13, 28, 29, 30, 31, 32, 133, 160 :: nat})"

definition lower_char :: "char \<Rightarrow> char" where
  "lower_char c =
     (let n = (of_char c :: nat)
      in if (65 \<le> n \<and> n \<le> 90) \<or> (192 \<le> n \<and> n \<le> 222 \<and> n \<noteq> 215)
         then char_of (n + 32) else c)"

definition lower :: "string \<Rightarrow> string" where
  "lower s = map lower_char s"

definition strip :: "string \<Rightarrow> string" where
  "strip s = rev (dropWhile is_space (rev (dropWhile is_space s)))"

text \<open>\<open>startswith s p\<close> is \<open>s.startswith(p)\<close>; \<open>contains s p\<close> is \<open>p in s\<close>.\<close>

fun startswith :: "string \<Rightarrow> string \<Rightarrow> bool" where
  "startswith s [] = True"
| "startswith [] (p # ps) = False"
| "startswith (c # cs) (p # ps) = (c = p \<and> startswith cs ps)"

fun contains :: "string \<Rightarrow> string \<Rightarrow> bool" where
  "contains [] p = (p = [])"
| "contains (c # cs) p = (startswith (c # cs) p \<or> contains cs p)"

text \<open>
  \<open>replace old new s\<close> is \<open>s.replace(old, new)\<close>: the occurrences of \<open>old\<close> are
  found from the left and do not overlap. With an empty \<open>old\<close> Python puts \<open>new\<close>
  before every character and at the end.
\<close>

function replace :: "string \<Rightarrow> string \<Rightarrow> string \<Rightarrow> string" where
  "replace old new [] = (if old = [] then new else [])"
| "replace old new (c # cs) =
     (if old = [] then new @ c # replace old new cs
      else if startswith (c # cs) old
           then new @ replace old new (drop (length old) (c # cs))
           else c # replace old new cs)"
  by pat_completeness auto
termination
  by (relation "measure (\<lambda>(old, new, s). length s)") auto

text \<open>\<open>split_on sep s\<close> is \<open>s.split(sep)\<close> for a one-character separator.\<close>

fun split_on :: "char \<Rightarrow> string \<Rightarrow> string list" where
  "split_on sep [] = [[]]"
| "split_on sep (c # cs) =
     (if c = sep then [] # split_on sep cs
      else (case split_on sep cs of
              [] \<Rightarrow> [[c]]
            | w # ws \<Rightarrow> (c # w) # ws))"

text \<open>\<open>join sep xs\<close> is \<open>sep.join(xs)\<close>.\<close>

fun join :: "string \<Rightarrow> string list \<Rightarrow> string" where
  "join sep [] = []"
| "join sep [x] = x"
| "join sep (x # y # ys) = x @ sep @ join sep (y # ys)"

section \<open>preprocessing.py\<close>

text \<open>
  \<open>collapse_ws\<close> is \<open>re.sub(r'\s+', ' ', text)\<close>: every maximal run of whitespace
  becomes one space. \<open>collapse_dots\<close> is \<open>re.sub(r'\.{2,}', '.', text)\<close>: every
  maximal run of two or more periods becomes one period.
\<close>

function collapse_ws :: "string \<Rightarrow> string" where
  "collapse_ws [] = []"
| "collapse_ws (c # cs) =
     (if is_space c then CHR '' '' # collapse_ws (dropWhile is_space cs)
      else c # collapse_ws cs)"
  by pat_completeness auto
termination
  by (relation "measure length") (auto simp: less_Suc_eq_le length_dropWhile_le)

function collapse_dots :: "string \<Rightarrow> string" where
  "collapse_dots [] = []"
| "collapse_dots (c # cs) =
     (if c = CHR ''.'' then CHR ''.'' # collapse_dots (dropWhile (\<lambda>d. d = CHR ''.'') cs)
      else c # collapse_dots cs)"
  by pat_completeness auto
termination
  by (relation "measure length") (auto simp: less_Suc_eq_le length_dropWhile_le)

definition normalize_text :: "string \<Rightarrow> string" where
  "normalize_text text = strip (collapse_dots (collapse_ws text))"

text \<open>
  The state of the loop of \<open>segment_conversation\<close>: \<open>doctor_lines\<close>,
  \<open>patient_lines\<close> and \<open>all_lines\<close>. \<open>append_last xs s\<close> is \<open>xs[-1] += s\<close>, which the
  source only runs on a non-empty list.
\<close>

type_synonym seg_state = "string list \<times> string list \<times> string list"

definition append_last :: "string list \<Rightarrow> string \<Rightarrow> string list" where
  "append_last xs s = xs[length xs - 1 := (xs ! (length xs - 1)) @ s]"

fun process_line :: "seg_state \<Rightarrow> string \<Rightarrow> seg_state" where
  "process_line (doctor_lines, patient_lines, all_lines) raw =
     (let line = strip raw in
      if line = [] then (doctor_lines, patient_lines, all_lines)
      else if startswith line ''Doctor:'' then
        (let doctor_text = strip (replace ''Doctor:'' [] line)
         in (doctor_lines @ [doctor_text], patient_lines, all_lines @ [doctor_text]))
      else if startswith line ''Patient:'' then
        (let patient_text = strip (replace ''Patient:'' [] line)
         in (doctor_lines, patient_lines @ [patient_text], all_lines @ [patient_text]))
      else if doctor_lines \<noteq> [] \<and> length doctor_lines > length patient_lines then
        (append_last doctor_lines ('' '' @ line), patient_lines, all_lines @ [line])
      else if patient_lines \<noteq> [] then
        (doctor_lines, append_last patient_lines ('' '' @ line), all_lines @ [line])
      else (doctor_lines, patient_lines, all_lines @ [line]))"

definition segment_lines :: "string \<Rightarrow> seg_state" where
  "segment_lines text = foldl process_line ([], [], []) (split_on (CHR 0x0A) text)"

text \<open>A Python \<open>Dict[str, str]\<close> and \<open>d.get(k, default)\<close>.\<close>

type_synonym str_dict = "string \<rightharpoonup> string"

definition dict_get :: "str_dict \<Rightarrow> string \<Rightarrow> string \<Rightarrow> string" where
  "dict_get d k dflt = (case d k of None \<Rightarrow> dflt | Some v \<Rightarrow> v)"

definition segment_conversation :: "string \<Rightarrow> str_dict" where
  "segment_conversation text =
     (case segment_lines text of
        (doctor_lines, patient_lines, all_lines) \<Rightarrow>
          [''doctor_text'' \<mapsto> normalize_text (join '' '' doctor_lines),
           ''patient_text'' \<mapsto> normalize_text (join '' '' patient_lines),
           ''full_text'' \<mapsto> normalize_text (join '' '' all_lines)])"

section \<open>sentiment_intent.py\<close>

definition SENTIMENT_CATEGORIES :: "string list" where
  "SENTIMENT_CATEGORIES = [''Anxious'', ''Neutral'', ''Reassured'']"

definition INTENT_CATEGORIES :: "string list" where
  "INTENT_CATEGORIES =
     [''Reporting symptoms'', ''Seeking reassurance'', ''Confirming recovery'',
      ''Asking questions'', ''Describing condition'']"

definition ANXIOUS_KEYWORDS :: "string list" where
  "ANXIOUS_KEYWORDS =
     [''worried'', ''concerned'', ''anxious'', ''nervous'', ''afraid'', ''fear'', ''scared'',
      ''uncertain'', ''doubt'', ''apprehensive'', ''stress'', ''panic'']"

definition REASSURED_KEYWORDS :: "string list" where
  "REASSURED_KEYWORDS =
     [''better'', ''improved'', ''reassuring'', ''confident'', ''relieved'', ''grateful'',
      ''thankful'', ''appreciate'', ''hopeful'', ''optimistic'', ''positive'', ''good news'']"

definition SYMPTOM_REPORTING_KEYWORDS :: "string list" where
  "SYMPTOM_REPORTING_KEYWORDS =
     [''pain'', ''ache'', ''discomfort'', ''feeling'', ''experiencing'', ''symptom'',
      ''problem'', ''issue'', ''bothering'', ''hurting'']"

definition REASSURANCE_SEEKING_KEYWORDS :: "string list" where
  "REASSURANCE_SEEKING_KEYWORDS =
     [''worried'', ''concerned'', ''should i'', ''is it normal'', ''what if'', ''afraid'',
      ''wondering'', ''question'', ''doubt'']"

definition RECOVERY_CONFIRMING_KEYWORDS :: "string list" where
  "RECOVERY_CONFIRMING_KEYWORDS =
     [''better'', ''improved'', ''recovering'', ''healing'', ''progress'', ''feeling good'',
      ''much better'', ''doing well'', ''getting better'']"

text \<open>\<open>sum(1 for keyword in KEYWORDS if keyword in text_lower)\<close>.\<close>

definition keyword_score :: "string list \<Rightarrow> string \<Rightarrow> nat" where
  "keyword_score keywords text_lower =
     length (filter (\<lambda>keyword. contains text_lower keyword) keywords)"

definition analyze_sentiment_rule_based :: "string \<Rightarrow> string" where
  "analyze_sentiment_rule_based text =
     (let text_lower = lower text;
          anxious_score = keyword_score ANXIOUS_KEYWORDS text_lower;
          reassured_score = keyword_score REASSURED_KEYWORDS text_lower
      in if anxious_score > reassured_score \<and> anxious_score > 0 then ''Anxious''
         else if reassured_score > anxious_score \<and> reassured_score > 0 then ''Reassured''
         else ''Neutral'')"

text \<open>
  The transformer classifier is outside the repository. \<open>None\<close> for the model is
  \<open>TRANSFORMERS_AVAILABLE = False\<close>; a loaded model maps the text to \<open>None\<close> when
  building or calling it raises, and to the first result's label and score otherwise. The
  threshold is the double that the literal \<open>0.7\<close> denotes.
\<close>

type_synonym sentiment_model = "string \<Rightarrow> (string \<times> real) option"

definition score_threshold :: real where
  "score_threshold = 3152519739159347 / 4503599627370496"

definition analyze_sentiment_transformers :: "sentiment_model option \<Rightarrow> string \<Rightarrow> string" where
  "analyze_sentiment_transformers model text =
     (case model of
        None \<Rightarrow> analyze_sentiment_rule_based text
      | Some sentiment_analyzer \<Rightarrow>
          (case sentiment_analyzer (take 512 text) of
             None \<Rightarrow> analyze_sentiment_rule_based text
           | Some (label, score) \<Rightarrow>
               if label = ''POSITIVE'' \<and> score > score_threshold then ''Reassured''
               else if label = ''NEGATIVE'' \<and> score > score_threshold then ''Anxious''
               else ''Neutral''))"

text \<open>
  \<open>max(scores, key=scores.get)\<close> walks the dictionary in insertion order and keeps the
  first key whose value is maximal: a later key replaces the current one only when its value
  is strictly greater.
\<close>

definition max_key :: "(string \<times> nat) \<Rightarrow> (string \<times> nat) list \<Rightarrow> (string \<times> nat)" where
  "max_key first rest = foldl (\<lambda>best item. if snd item > snd best then item else best) first rest"

definition analyze_intent_rule_based :: "string \<Rightarrow> string" where
  "analyze_intent_rule_based text =
     (let text_lower = lower text;
          symptom_score = keyword_score SYMPTOM_REPORTING_KEYWORDS text_lower;
          reassurance_score = keyword_score REASSURANCE_SEEKING_KEYWORDS text_lower;
          recovery_score = keyword_score RECOVERY_CONFIRMING_KEYWORDS text_lower;
          max_intent = max_key (''Reporting symptoms'', symptom_score)
                         [(''Seeking reassurance'', reassurance_score),
                          (''Confirming recovery'', recovery_score)]
      in if snd max_intent > 0 then fst max_intent else ''Describing condition'')"

record sentiment_intent =
  Sentiment :: string
  Intent :: string

definition analyze_sentiment_intent :: "sentiment_model option \<Rightarrow> str_dict \<Rightarrow> sentiment_intent" where
  "analyze_sentiment_intent model processed_data =
     (let patient_text = dict_get processed_data ''patient_text'' []
      in if patient_text = [] then \<lparr>Sentiment = ''Neutral'', Intent = ''Describing condition''\<rparr>
         else \<lparr>Sentiment = analyze_sentiment_transformers model patient_text,
               Intent = analyze_intent_rule_based patient_text\<rparr>)"

section \<open>summarization.py\<close>

text \<open>
  \<open>re_split P s\<close> is \<open>re.split\<close> on the maximal runs of the characters that satisfy
  \<open>P\<close>; \<open>split_sentences\<close> is \<open>re.split(r'[.!?]+', text)\<close>. The pieces before a
  leading run and after a trailing run are empty strings, as in Python.
\<close>

function re_split :: "(char \<Rightarrow> bool) \<Rightarrow> string \<Rightarrow> string list" where
  "re_split P [] = [[]]"
| "re_split P (c # cs) =
     (if P c then [] # re_split P (dropWhile P cs)
      else (case re_split P cs of
              [] \<Rightarrow> [[c]]
            | w # ws \<Rightarrow> (c # w) # ws))"
  by pat_completeness auto
termination
  by (relation "measure (\<lambda>(P, s). length s)") (auto simp: less_Suc_eq_le length_dropWhile_le)

definition is_sentence_end :: "char \<Rightarrow> bool" where
  "is_sentence_end c = (c = CHR ''.'' \<or> c = CHR ''!'' \<or> c = CHR ''?'')"

definition split_sentences :: "string \<Rightarrow> string list" where
  "split_sentences text = re_split is_sentence_end text"

text \<open>\<open>[s.strip() for s in sentences if len(s.strip()) > n]\<close>.\<close>

definition long_sentences :: "nat \<Rightarrow> string \<Rightarrow> string list" where
  "long_sentences n text = map strip (filter (\<lambda>s. length (strip s) > n) (split_sentences text))"

definition medical_keywords :: "string list" where
  "medical_keywords =
     [''patient'', ''diagnosis'', ''treatment'', ''symptom'', ''pain'', ''injury'',
      ''recovery'', ''therapy'', ''medication'', ''doctor'', ''condition'']"

text \<open>The score of the sentence at index \<open>i\<close> of \<open>n\<close> sentences.\<close>

definition sentence_score :: "nat \<Rightarrow> nat \<Rightarrow> string \<Rightarrow> nat" where
  "sentence_score i n sentence =
     length sentence
     + 20 * length (filter (\<lambda>keyword. contains (lower sentence) (lower keyword)) medical_keywords)
     + (if i = 0 \<or> int i = int n - 1 then 10 else 0)"

text \<open>
  \<open>slice_to n xs\<close> is \<open>xs[:n]\<close>, where a negative \<open>n\<close> counts from the end.
  \<open>sort_desc\<close> is \<open>xs.sort(reverse=True, key=lambda x: x[0])\<close>: Python's sort is
  stable, also with \<open>reverse=True\<close>, so entries of equal score keep their order.
\<close>

definition slice_to :: "int \<Rightarrow> 'a list \<Rightarrow> 'a list" where
  "slice_to n xs = (if 0 \<le> n then take (nat n) xs else take (length xs - nat (- n)) xs)"

definition sort_desc :: "(nat \<times> 'a) list \<Rightarrow> (nat \<times> 'a) list" where
  "sort_desc xs = sort_key (\<lambda>x. - int (fst x)) xs"

definition scored_sentences :: "string list \<Rightarrow> (nat \<times> string) list" where
  "scored_sentences sentences =
     map (\<lambda>(i, sentence). (sentence_score i (length sentences) sentence, sentence))
         (enumerate 0 sentences)"

definition top_sentences :: "string list \<Rightarrow> int \<Rightarrow> string list" where
  "top_sentences sentences num_sentences =
     (let top = map snd (slice_to num_sentences (sort_desc (scored_sentences sentences)))
      in filter (\<lambda>s. s \<in> set top) sentences)"

definition summarize_simple :: "string \<Rightarrow> int \<Rightarrow> string" where
  "summarize_simple text num_sentences =
     (let sentences = long_sentences 20 text
      in if int (length sentences) \<le> num_sentences then join ''. '' sentences @ ''.''
         else join ''. '' (top_sentences sentences num_sentences) @ ''.'')"

text \<open>
  The summarizer as the specification words it, for comparison: a sentence scores its
  length, plus 20 for every occurrence of a medical keyword in it, plus 10 when it is the
  first or the last one; the \<open>K\<close> best positions are selected and put back into textual
  order. The score is a parameter of \<open>spec_summarize\<close>.
\<close>

fun count_occurrences :: "string \<Rightarrow> string \<Rightarrow> nat" where
  "count_occurrences [] p = 0"
| "count_occurrences (c # cs) p =
     (if startswith (c # cs) p then 1 else 0) + count_occurrences cs p"

definition spec_sentence_score :: "nat \<Rightarrow> nat \<Rightarrow> string \<Rightarrow> nat" where
  "spec_sentence_score i n sentence =
     length sentence
     + 20 * sum_list (map (\<lambda>keyword. count_occurrences (lower sentence) keyword) medical_keywords)
     + (if i = 0 \<or> Suc i = n then 10 else 0)"

definition spec_top_sentences ::
  "(nat \<Rightarrow> nat \<Rightarrow> string \<Rightarrow> nat) \<Rightarrow> string list \<Rightarrow> nat \<Rightarrow> string list" where
  "spec_top_sentences score sentences K =
     (let indexed = enumerate 0 sentences;
          best = take K (sort_key (\<lambda>(i, s). - int (score i (length sentences) s)) indexed)
      in map snd (sort_key fst best))"

definition spec_summarize ::
  "(nat \<Rightarrow> nat \<Rightarrow> string \<Rightarrow> nat) \<Rightarrow> string \<Rightarrow> nat \<Rightarrow> string" where
  "spec_summarize score text K =
     join ''. '' (spec_top_sentences score (long_sentences 20 text) K) @ ''.''"

section \<open>ner_extraction.py\<close>

definition SYMPTOM_KEYWORDS :: "string list" where
  "SYMPTOM_KEYWORDS =
     [''pain'', ''ache'', ''discomfort'', ''sore'', ''tender'', ''stiff'', ''numb'',
      ''tingling'', ''headache'', ''dizziness'', ''nausea'', ''vomiting'', ''fever'',
      ''fatigue'', ''weakness'', ''swelling'', ''inflammation'', ''rash'', ''itch'']"

definition DIAGNOSIS_KEYWORDS :: "string list" where
  "DIAGNOSIS_KEYWORDS =
     [''diagnosis'', ''diagnosed'', ''condition'', ''disease'', ''disorder'', ''syndrome'',
      ''injury'', ''fracture'', ''infection'', ''inflammation'', ''chronic'', ''acute'']"

definition TREATMENT_KEYWORDS :: "string list" where
  "TREATMENT_KEYWORDS =
     [''treatment'', ''therapy'', ''medication'', ''medicine'', ''drug'', ''prescription'',
      ''physiotherapy'', ''surgery'', ''operation'', ''procedure'', ''exercise'',
      ''painkiller'', ''antibiotic'', ''dose'', ''session'', ''appointment'']"

definition PROGNOSIS_KEYWORDS :: "string list" where
  "PROGNOSIS_KEYWORDS =
     [''recovery'', ''prognosis'', ''outcome'', ''heal'', ''improve'', ''better'',
      ''recover'', ''expected'', ''timeline'', ''months'', ''weeks'', ''days'']"

text \<open>
  \<open>re.findall(rf'[^.]*{re.escape(keyword)}[^.]*\.?', text, re.IGNORECASE)\<close>. At a start
  position the first \<open>[^.]*\<close> takes the whole run of characters other than a period and
  gives characters back one by one until the keyword matches, whatever the case of its
  letters (\<open>startswith_ci\<close>; \<open>keyword_start\<close> is the offset found, the largest one); the second \<open>[^.]*\<close>
  takes the rest of the run and \<open>\.?\<close> the period after it. A start position with no
  match is skipped; after a match the search goes on behind it. With an empty keyword the
  pattern matches every run of characters other than a period, with the period after it,
  and the empty string at the end of the text (\<open>findall_runs\<close>).
\<close>

definition not_dot :: "char \<Rightarrow> bool" where
  "not_dot c = (c \<noteq> CHR ''.'')"

fun startswith_ci :: "string \<Rightarrow> string \<Rightarrow> bool" where
  "startswith_ci s [] = True"
| "startswith_ci [] (p # ps) = False"
| "startswith_ci (c # cs) (p # ps) = (lower_char c = lower_char p \<and> startswith_ci cs ps)"

definition keyword_start :: "string \<Rightarrow> string \<Rightarrow> nat option" where
  "keyword_start keyword s =
     find (\<lambda>k. startswith_ci (drop k s) keyword)
          (rev [0 ..< Suc (length (takeWhile not_dot s))])"

function findall_runs :: "string \<Rightarrow> string list" where
  "findall_runs [] = [[]]"
| "findall_runs (c # cs) =
     (if c = CHR ''.'' then ''.'' # findall_runs cs
      else (let run = c # takeWhile not_dot cs;
                rest = dropWhile not_dot cs
            in if startswith rest ''.''
               then (run @ ''.'') # findall_runs (tl rest)
               else run # findall_runs rest))"
  by pat_completeness auto
termination
  by (relation "measure length")
     (auto simp: less_Suc_eq_le length_dropWhile_le intro: le_trans [OF diff_le_self])

function findall_keyword :: "string \<Rightarrow> string \<Rightarrow> string list" where
  "findall_keyword [] s = findall_runs s"
| "findall_keyword (a # as) [] = []"
| "findall_keyword (a # as) (c # cs) =
     (case keyword_start (a # as) (c # cs) of
        None \<Rightarrow> findall_keyword (a # as) cs
      | Some k \<Rightarrow>
          (let after = drop (k + length as) cs;
               run = takeWhile not_dot after;
               rest = drop (length run) after;
               head = take (Suc (k + length as)) (c # cs) @ run
           in if startswith rest ''.''
              then (head @ ''.'') # findall_keyword (a # as) (tl rest)
              else head # findall_keyword (a # as) rest))"
  by pat_completeness auto
termination
  by (relation "measure (\<lambda>(keyword, s). length s)") auto

definition extract_by_keywords :: "string \<Rightarrow> string list \<Rightarrow> string list" where
  "extract_by_keywords text keywords =
     take 10 (concat (map (\<lambda>keyword.
        filter (\<lambda>cleaned. length cleaned > 10 \<and> length cleaned < 200)
               (map strip (findall_keyword keyword text))) keywords))"

text \<open>
  The spaCy model is outside the repository: \<open>None\<close> is \<open>nlp is None\<close>, and a loaded
  model maps the text to the texts of \<open>doc.ents\<close>. The dictionary \<open>entities\<close> maps a
  category to the entity texts collected for it.
\<close>

type_synonym ner_model = "string \<Rightarrow> string list"

type_synonym entity_dict = "string \<rightharpoonup> string list"

definition any_keyword_in :: "string list \<Rightarrow> string \<Rightarrow> bool" where
  "any_keyword_in keywords text_ent = list_ex (\<lambda>keyword. contains text_ent keyword) keywords"

definition entities_get :: "entity_dict \<Rightarrow> string \<Rightarrow> string list" where
  "entities_get entities key = (case entities key of None \<Rightarrow> [] | Some xs \<Rightarrow> xs)"

definition add_entity :: "entity_dict \<Rightarrow> string \<Rightarrow> string \<Rightarrow> entity_dict" where
  "add_entity entities key ent_text =
     (let xs = entities_get entities key
      in if ent_text \<in> set xs then entities(key \<mapsto> xs) else entities(key \<mapsto> xs @ [ent_text]))"

definition classify_entity :: "entity_dict \<Rightarrow> string \<Rightarrow> entity_dict" where
  "classify_entity entities ent_text =
     (let text_ent = lower ent_text
      in if any_keyword_in SYMPTOM_KEYWORDS text_ent then add_entity entities ''Symptoms'' ent_text
         else if any_keyword_in DIAGNOSIS_KEYWORDS text_ent then add_entity entities ''Diagnosis'' ent_text
         else if any_keyword_in TREATMENT_KEYWORDS text_ent then add_entity entities ''Treatment'' ent_text
         else if any_keyword_in PROGNOSIS_KEYWORDS text_ent then add_entity entities ''Prognosis'' ent_text
         else entities)"

definition ner_entities :: "ner_model \<Rightarrow> string \<Rightarrow> entity_dict" where
  "ner_entities nlp text = foldl classify_entity Map.empty (nlp text)"

text \<open>
  \<open>dedup_first\<close> is \<open>list(dict.fromkeys(xs))\<close>: the first occurrence of every element, in
  order. \<open>clean_items\<close> is the clean-up of one category.
\<close>

fun dedup_first :: "'a list \<Rightarrow> 'a list \<Rightarrow> 'a list" where
  "dedup_first seen [] = []"
| "dedup_first seen (x # xs) =
     (if x \<in> set seen then dedup_first seen xs else x # dedup_first (x # seen) xs)"

definition clean_items :: "string list \<Rightarrow> string list" where
  "clean_items items = dedup_first [] (map strip (filter (\<lambda>item. strip item \<noteq> []) items))"

definition CATEGORIES :: "(string \<times> string list) list" where
  "CATEGORIES =
     [(''Symptoms'', SYMPTOM_KEYWORDS), (''Diagnosis'', DIAGNOSIS_KEYWORDS),
      (''Treatment'', TREATMENT_KEYWORDS), (''Prognosis'', PROGNOSIS_KEYWORDS)]"

text \<open>
  \<open>list(set(xs))\<close> lists the distinct elements of \<open>xs\<close> in the iteration order of a hash
  set, which for strings changes with the hash seed of the process. That order is the
  parameter \<open>set_list\<close>, a function from \<open>xs\<close> to the resulting list;
  \<open>lists_a_set set_list\<close> says that it lists every element once.
\<close>

definition lists_a_set :: "(string list \<Rightarrow> string list) \<Rightarrow> bool" where
  "lists_a_set set_list = (\<forall>xs. set (set_list xs) = set xs \<and> distinct (set_list xs))"

definition extract_medical_entities ::
  "(string list \<Rightarrow> string list) \<Rightarrow> ner_model option \<Rightarrow> string \<Rightarrow> entity_dict" where
  "extract_medical_entities set_list nlp_opt text =
     (case nlp_opt of
        None \<Rightarrow> map_of (map (\<lambda>(key, keywords). (key, [])) CATEGORIES)
      | Some nlp \<Rightarrow>
          (let entities = ner_entities nlp text
           in map_of (map (\<lambda>(key, keywords).
                (key, clean_items (set_list (entities_get entities key
                                             @ extract_by_keywords text keywords))))
                CATEGORIES)))"

text \<open>
  The merge as the specification words it: the model-based results, then the
  keyword-window results, trimmed, without the empty strings, every string at its first
  position.
\<close>

definition spec_merge :: "string list \<Rightarrow> string list \<Rightarrow> string list" where
  "spec_merge model_results keyword_results =
     dedup_first [] (filter (\<lambda>s. s \<noteq> []) (map strip (model_results @ keyword_results)))"

definition spec_model_results :: "ner_model option \<Rightarrow> string \<Rightarrow> string \<Rightarrow> string list" where
  "spec_model_results nlp_opt text key =
     (case nlp_opt of None \<Rightarrow> [] | Some nlp \<Rightarrow> entities_get (ner_entities nlp text) key)"

section \<open>keyword_extraction.py\<close>

text \<open>
  \<open>tokens s\<close> is \<open>s.split()\<close>: the maximal runs of characters that are not
  whitespace.
\<close>

function tokens :: "string \<Rightarrow> string list" where
  "tokens s =
     (case dropWhile is_space s of
        [] \<Rightarrow> []
      | c # cs \<Rightarrow> (c # takeWhile (\<lambda>d. \<not> is_space d) cs)
                   # tokens (dropWhile (\<lambda>d. \<not> is_space d) cs))"
  by pat_completeness auto
termination
proof (relation "measure length", goal_cases)
  case 1
  show ?case by simp
next
  case (2 s c cs)
  have "length (dropWhile (\<lambda>d. \<not> is_space d) cs) \<le> length cs"
    by (rule length_dropWhile_le)
  moreover have "length (c # cs) \<le> length s"
    using length_dropWhile_le [of is_space s] 2 by simp
  ultimately show ?case by simp
qed

text \<open>
  \<open>counter xs\<close> is the items of \<open>Counter(xs)\<close>, keys in the order of their first
  occurrence. \<open>most_common n\<close> is \<open>Counter.most_common(n)\<close>: the \<open>n\<close> items of
  highest count, items of equal count in the order of the counter; nothing when
  \<open>n\<close> is not positive.
\<close>

definition counter :: "string list \<Rightarrow> (string \<times> nat) list" where
  "counter xs = map (\<lambda>k. (k, count_list xs k)) (dedup_first [] xs)"

definition most_common :: "int \<Rightarrow> (string \<times> nat) list \<Rightarrow> (string \<times> nat) list" where
  "most_common n items = take (nat n) (sort_key (\<lambda>item. - int (snd item)) items)"

text \<open>
  KeyBERT, scikit-learn's TF-IDF vectorizer and the spaCy noun chunker are outside the
  repository. A service is \<open>None\<close> when its import or model load failed; a call of a
  loaded service gives \<open>None\<close> when it raised, which the source catches.
\<close>

record keyword_services =
  keybert :: "(string \<Rightarrow> int \<Rightarrow> string list option) option"
  tfidf :: "(string list \<Rightarrow> int \<Rightarrow> string list option) option"
  noun_chunks :: "(string \<Rightarrow> string list option) option"

definition extract_keywords_keybert :: "keyword_services \<Rightarrow> string \<Rightarrow> int \<Rightarrow> string list" where
  "extract_keywords_keybert services text top_n =
     (case keybert services of
        None \<Rightarrow> []
      | Some kw_model \<Rightarrow> (case kw_model text top_n of None \<Rightarrow> [] | Some keywords \<Rightarrow> keywords))"

definition extract_keywords_tfidf :: "keyword_services \<Rightarrow> string \<Rightarrow> int \<Rightarrow> string list" where
  "extract_keywords_tfidf services text top_n =
     (case tfidf services of
        None \<Rightarrow> []
      | Some vectorizer \<Rightarrow>
          (let sentences = long_sentences 10 text
           in if length sentences < 2 then []
              else (case vectorizer sentences top_n of None \<Rightarrow> [] | Some keywords \<Rightarrow> keywords)))"

definition extract_noun_phrases :: "keyword_services \<Rightarrow> string \<Rightarrow> int \<Rightarrow> string list" where
  "extract_noun_phrases services text top_n =
     (case noun_chunks services of
        None \<Rightarrow> []
      | Some chunker \<Rightarrow>
          (case chunker text of
             None \<Rightarrow> []
           | Some chunks \<Rightarrow>
               (let noun_phrases = map lower (filter (\<lambda>chunk. length (tokens chunk) \<le> 3) chunks)
                in map fst (most_common top_n (counter noun_phrases)))))"

definition stop_words :: "string set" where
  "stop_words =
     {''the'', ''a'', ''an'', ''and'', ''or'', ''but'', ''in'', ''on'', ''at'', ''to'', ''for'',
      ''of'', ''with'', ''by''}"

text \<open>
  The last loop of \<open>extract_keywords\<close>: \<open>seen\<close> and \<open>result\<close> are its variables, and
  the \<open>break\<close> is tested after a keyword has been appended.
\<close>

fun unique_top :: "int \<Rightarrow> string set \<Rightarrow> string list \<Rightarrow> string list \<Rightarrow> string list" where
  "unique_top top_n seen result [] = result"
| "unique_top top_n seen result (kw # kws) =
     (if kw \<notin> seen
      then (if int (length (result @ [kw])) \<ge> top_n then result @ [kw]
            else unique_top top_n (insert kw seen) (result @ [kw]) kws)
      else unique_top top_n seen result kws)"

definition extract_keywords :: "keyword_services \<Rightarrow> string \<Rightarrow> int \<Rightarrow> string list" where
  "extract_keywords services text top_n =
     (let all_keywords = extract_keywords_keybert services text top_n
                         @ extract_keywords_tfidf services text top_n
                         @ extract_noun_phrases services text top_n;
          keyword_counts = counter (map lower all_keywords);
          filtered_keywords =
            filter (\<lambda>kw. kw \<notin> stop_words \<and> length kw > 2)
                   (map fst (most_common (top_n * 2) keyword_counts))
      in unique_top top_n {} [] filtered_keywords)"

section \<open>extract_patient_name (soap_generator.py and pipeline.py)\<close>

text \<open>
  Both files define the same function. The name group is
  \<open>([A-Z][a-z]+(?:\s+[A-Z][a-z]+)?)\<close>; \<open>name_ends s\<close> lists the lengths of the
  prefixes of \<open>s\<close> that it can match, in the order in which the backtracking matcher
  tries them: the longest run of small letters first, and for each run the optional second
  word (longest whitespace, longest run of letters first) before the first word alone.
\<close>

definition is_upper_az :: "char \<Rightarrow> bool" where
  "is_upper_az c = (65 \<le> (of_char c :: nat) \<and> (of_char c :: nat) \<le> 90)"

definition is_lower_az :: "char \<Rightarrow> bool" where
  "is_lower_az c = (97 \<le> (of_char c :: nat) \<and> (of_char c :: nat) \<le> 122)"

text \<open>\<open>down_from n\<close> is the list \<open>n, n - 1, ..., 1\<close>.\<close>

definition down_from :: "nat \<Rightarrow> nat list" where
  "down_from n = rev [1 ..< Suc n]"

definition second_word_ends :: "string \<Rightarrow> nat list" where
  "second_word_ends rest =
     concat (map (\<lambda>w.
        (case drop w rest of
           [] \<Rightarrow> []
         | d # ds \<Rightarrow>
             if is_upper_az d
             then map (\<lambda>m2. w + 1 + m2) (down_from (length (takeWhile is_lower_az ds)))
             else []))
        (down_from (length (takeWhile is_space rest))))"

definition name_ends :: "string \<Rightarrow> nat list" where
  "name_ends s =
     (case s of
        [] \<Rightarrow> []
      | c # cs \<Rightarrow>
          if is_upper_az c
          then concat (map (\<lambda>m. map (\<lambda>e. Suc m + e) (second_word_ends (drop m cs)) @ [Suc m])
                           (down_from (length (takeWhile is_lower_az cs))))
          else [])"

text \<open>
  \<open>match_pattern1 s\<close> matches \<open>Patient:\s*(name)\<close> at the start of \<open>s\<close> and gives
  group 1. \<open>match_pattern2 s\<close> matches \<open>(name),?\s+(?:how|feeling|doing)\<close> at the start
  of \<open>s\<close>: the first name candidate that the rest of the pattern (\<open>match_tail\<close>) accepts.
\<close>

definition match_pattern1 :: "string \<Rightarrow> string option" where
  "match_pattern1 s =
     (if startswith s ''Patient:''
      then (let t = drop 8 s
            in case concat (map (\<lambda>v. map (\<lambda>e. take e (drop v t)) (name_ends (drop v t)))
                                (rev [0 ..< Suc (length (takeWhile is_space t))])) of
                 [] \<Rightarrow> None
               | g # gs \<Rightarrow> Some g)
      else None)"

definition match_verb :: "string \<Rightarrow> bool" where
  "match_verb s = (startswith s ''how'' \<or> startswith s ''feeling'' \<or> startswith s ''doing'')"

definition match_spaces_verb :: "string \<Rightarrow> bool" where
  "match_spaces_verb s =
     list_ex (\<lambda>v. match_verb (drop v s)) (down_from (length (takeWhile is_space s)))"

definition match_tail :: "string \<Rightarrow> bool" where
  "match_tail s =
     ((startswith s '','' \<and> match_spaces_verb (drop 1 s)) \<or> match_spaces_verb s)"

definition match_pattern2 :: "string \<Rightarrow> string option" where
  "match_pattern2 s =
     (case find (\<lambda>e. match_tail (drop e s)) (name_ends s) of
        None \<Rightarrow> None
      | Some e \<Rightarrow> Some (take e s))"

text \<open>
  \<open>re_search m text\<close> is \<open>re.search\<close>: the match at the leftmost start position that has
  one, the end of the text included.
\<close>

fun re_search :: "(string \<Rightarrow> string option) \<Rightarrow> string \<Rightarrow> string option" where
  "re_search m [] = m []"
| "re_search m (c # cs) =
     (case m (c # cs) of
        Some g \<Rightarrow> Some g
      | None \<Rightarrow> re_search m cs)"

definition extract_patient_name :: "string \<Rightarrow> string" where
  "extract_patient_name text =
     (case re_search match_pattern1 text of
        Some g \<Rightarrow> g
      | None \<Rightarrow>
          (case re_search match_pattern2 text of
             Some g \<Rightarrow> g
           | None \<Rightarrow> ''Patient''))"

text \<open>
  \<open>pipeline.py\<close> and \<open>soap_generator.py\<close> take the patient name from the
  \<open>full_text\<close> of the segmented transcript.
\<close>

definition report_patient_name :: "string \<Rightarrow> string" where
  "report_patient_name transcript =
     extract_patient_name (dict_get (segment_conversation transcript) ''full_text'' [])"

section \<open>Notions used to state the properties\<close>

text \<open>
  The continuation rule as the specification words it: an untagged line goes to the
  doctor when the doctor has at least as many utterances as the patient, else to the
  patient.
\<close>

fun spec_continuation :: "seg_state \<Rightarrow> string \<Rightarrow> seg_state" where
  "spec_continuation (doctor_lines, patient_lines, all_lines) line =
     (if length doctor_lines \<ge> length patient_lines
      then (append_last doctor_lines ('' '' @ line), patient_lines, all_lines @ [line])
      else (doctor_lines, append_last patient_lines ('' '' @ line), all_lines @ [line]))"

text \<open>
  The lines that the loop of \<open>segment_conversation\<close> does not skip, and what it appends
  to \<open>all_lines\<close> for such a line.
\<close>

definition content_lines :: "string \<Rightarrow> string list" where
  "content_lines text = filter (\<lambda>line. line \<noteq> []) (map strip (split_on (CHR 0x0A) text))"

definition line_content :: "string \<Rightarrow> string" where
  "line_content line =
     (if startswith line ''Doctor:'' then strip (replace ''Doctor:'' [] line)
      else if startswith line ''Patient:'' then strip (replace ''Patient:'' [] line)
      else line)"

definition is_tagged :: "string \<Rightarrow> bool" where
  "is_tagged line = (startswith line ''Doctor:'' \<or> startswith line ''Patient:'')"

definition first_line_tagged :: "string \<Rightarrow> bool" where
  "first_line_tagged text = (case content_lines text of [] \<Rightarrow> True | line # rest \<Rightarrow> is_tagged line)"

text \<open>
  A line has its speaker tags only in front when neither tag occurs in it behind its
  first character.
\<close>

definition tags_only_leading :: "string \<Rightarrow> bool" where
  "tags_only_leading line =
     (\<not> contains (tl line) ''Doctor:'' \<and> \<not> contains (tl line) ''Patient:'')"

definition tags_lead_every_line :: "string \<Rightarrow> bool" where
  "tags_lead_every_line text = list_all tags_only_leading (content_lines text)"

text \<open>The transcript of the scenario of the specification (section 8, item 7).\<close>

definition scenario_transcript :: string where
  "scenario_transcript =
     ''Doctor: How are you feeling?'' @ [CHR 0x0A]
     @ ''Patient: I have fever and a bad headache, I'' @ [CHR 0x27] @ ''m worried it''
     @ [CHR 0x27] @ ''s serious.''"

text \<open>Keyword services for a concrete run of \<open>extract_keywords\<close>.\<close>

definition demo_services :: keyword_services where
  "demo_services =
     \<lparr>keybert = Some (\<lambda>t n. Some [''Neck Pain'', ''the'', ''of'', ''back pain'', ''ab'']),
      tfidf = None,
      noun_chunks = Some (\<lambda>t. Some [''the neck'', ''neck pain'', ''a b c d'', ''The Neck''])\<rparr>"

text \<open>A text and a NER model for a concrete run of \<open>extract_medical_entities\<close>.\<close>

definition demo_text :: string where
  "demo_text = ''Neck pain now.''"

definition demo_nlp :: ner_model where
  "demo_nlp text = [''neck pain'', '' neck pain '', ''neck pain'', ''whiplash injury'']"

text \<open>A text for a concrete run of \<open>summarize_simple\<close>.\<close>

definition summary_text :: string where
  "summary_text =
     ''The patient has a bad injury today. It is pain and pain and pain. ''
     @ ''We walked along the old river bank yesterday evening. ''
     @ ''The doctor said the treatment helps recovery.''"

text \<open>A transcript with a greeting, for a concrete run of the name extractor.\<close>

definition greeting_transcript :: string where
  "greeting_transcript =
     ''Doctor: Hi Bob, how are you?'' @ [CHR 0x0A] @ ''  Patient: Fine, thanks''"

text \<open>Two transcripts for concrete runs of the segmentation.\<close>

definition header_transcript :: string where
  "header_transcript = ''Visit notes'' @ [CHR 0x0A] @ ''Doctor: Hi''"

definition continued_transcript :: string where
  "continued_transcript =
     ''Doctor: Hi'' @ [CHR 0x0A] @ ''Patient: Sore neck..'' @ [CHR 0x0A] @ ''and back''"

section \<open>Character tests on the bits of a character\<close>

text \<open>
  The character functions are defined on code points; these equations state them on the
  eight bits of a character (\<open>b0\<close> is the lowest), which is how concrete strings are
  evaluated below.
\<close>

lemma lower_char_bits [code]:
  "lower_char (Char b0 b1 b2 b3 b4 b5 b6 b7) =
     (if b6 \<and> \<not> b5 \<and>
         ((\<not> b7 \<and> (b0 \<or> b1 \<or> b2 \<or> b3 \<or> b4) \<and> \<not> (b4 \<and> b3 \<and> (b2 \<or> (b1 \<and> b0))))
          \<or> (b7 \<and> \<not> (b4 \<and> b3 \<and> b2 \<and> b1 \<and> b0) \<and> \<not> (b4 \<and> \<not> b3 \<and> b2 \<and> b1 \<and> b0)))
      then Char b0 b1 b2 b3 b4 True b6 b7
      else Char b0 b1 b2 b3 b4 b5 b6 b7)"
  by (cases b0; cases b1; cases b2; cases b3; cases b4; cases b5; cases b6; cases b7;
      simp add: lower_char_def Let_def char_of_def bit_0 bit_Suc)

lemma is_space_bits [code]:
  "is_space (Char b0 b1 b2 b3 b4 b5 b6 b7) =
     ((\<not> b7 \<and> \<not> b6 \<and> \<not> b5 \<and> \<not> b4 \<and> b3 \<and> ((\<not> b2 \<and> (b1 \<or> b0)) \<or> (b2 \<and> \<not> b1)))
      \<or> (\<not> b7 \<and> \<not> b6 \<and> \<not> b5 \<and> b4 \<and> b3 \<and> b2)
      \<or> (\<not> b6 \<and> b5 \<and> \<not> b4 \<and> \<not> b3 \<and> \<not> b2 \<and> \<not> b1 \<and> \<not> b0)
      \<or> (b7 \<and> \<not> b6 \<and> \<not> b5 \<and> \<not> b4 \<and> \<not> b3 \<and> b2 \<and> \<not> b1 \<and> b0))"
  by (cases b0; cases b1; cases b2; cases b3; cases b4; cases b5; cases b6; cases b7;
      simp add: is_space_def)

lemma is_upper_az_bits [code]:
  "is_upper_az (Char b0 b1 b2 b3 b4 b5 b6 b7) =
     (\<not> b7 \<and> b6 \<and> \<not> b5 \<and> (b0 \<or> b1 \<or> b2 \<or> b3 \<or> b4)
      \<and> \<not> (b4 \<and> b3 \<and> (b2 \<or> (b1 \<and> b0))))"
  by (cases b0; cases b1; cases b2; cases b3; cases b4; cases b5; cases b6; cases b7;
      simp add: is_upper_az_def)

lemma is_lower_az_bits [code]:
  "is_lower_az (Char b0 b1 b2 b3 b4 b5 b6 b7) =
     (\<not> b7 \<and> b6 \<and> b5 \<and> (b0 \<or> b1 \<or> b2 \<or> b3 \<or> b4)
      \<and> \<not> (b4 \<and> b3 \<and> (b2 \<or> (b1 \<and> b0))))"
  by (cases b0; cases b1; cases b2; cases b3; cases b4; cases b5; cases b6; cases b7;
      simp add: is_lower_az_def)

section \<open>Sentiment and intent\<close>

lemma max_key_fst: "fst (max_key a [b, c]) \<in> {fst a, fst b, fst c}"
  by (simp add: max_key_def)

text \<open>
  C1, as the specification states it, fails: on the scenario transcript, without a
  transformer model, the intent is not \<open>Seeking reassurance\<close>, and the
  reassurance-seeking count does not exceed the symptom-reporting count.
\<close>

theorem scenario_intent_counterexample:
  "Intent (analyze_sentiment_intent None (segment_conversation scenario_transcript))
     \<noteq> ''Seeking reassurance''
   \<and> \<not> keyword_score REASSURANCE_SEEKING_KEYWORDS
          (lower (dict_get (segment_conversation scenario_transcript) ''patient_text'' []))
        > keyword_score SYMPTOM_REPORTING_KEYWORDS
          (lower (dict_get (segment_conversation scenario_transcript) ''patient_text'' []))"
  by code_simp

text \<open>
  C1, amended: on the scenario transcript, without a transformer model, the classifier
  returns the sentiment \<open>Anxious\<close> and the intent \<open>Reporting symptoms\<close>. The
  symptom-reporting count is 1, because the keyword \<open>ache\<close> occurs inside
  \<open>headache\<close>, the reassurance-seeking count is 1, because of \<open>worried\<close>, and the tie
  goes to the category declared first.
\<close>

theorem scenario_sentiment_intent:
  "analyze_sentiment_intent None (segment_conversation scenario_transcript)
     = \<lparr>Sentiment = ''Anxious'', Intent = ''Reporting symptoms''\<rparr>
   \<and> keyword_score SYMPTOM_REPORTING_KEYWORDS
          (lower (dict_get (segment_conversation scenario_transcript) ''patient_text'' [])) = 1
   \<and> keyword_score REASSURANCE_SEEKING_KEYWORDS
          (lower (dict_get (segment_conversation scenario_transcript) ''patient_text'' [])) = 1
   \<and> contains ''headache'' ''ache''"
  by code_simp

text \<open>
  C8: for every processed transcript and every transformer model, loaded or not, the
  classifier returns one sentiment of \<open>SENTIMENT_CATEGORIES\<close> and one intent of
  \<open>INTENT_CATEGORIES\<close>, and for an empty \<open>patient_text\<close> it returns \<open>Neutral\<close> and
  \<open>Describing condition\<close>.
\<close>

theorem sentiment_intent_total:
  "Sentiment (analyze_sentiment_intent model processed_data) \<in> set SENTIMENT_CATEGORIES
   \<and> Intent (analyze_sentiment_intent model processed_data) \<in> set INTENT_CATEGORIES
   \<and> (dict_get processed_data ''patient_text'' [] = [] \<longrightarrow>
        analyze_sentiment_intent model processed_data
          = \<lparr>Sentiment = ''Neutral'', Intent = ''Describing condition''\<rparr>)"
proof -
  have rb: "analyze_sentiment_rule_based t \<in> set SENTIMENT_CATEGORIES" for t
    by (simp add: analyze_sentiment_rule_based_def SENTIMENT_CATEGORIES_def Let_def)
  have tr: "analyze_sentiment_transformers model t \<in> set SENTIMENT_CATEGORIES" for t
    using rb [of t]
    by (auto simp: analyze_sentiment_transformers_def SENTIMENT_CATEGORIES_def
             split: option.splits)
  have it: "analyze_intent_rule_based t \<in> set INTENT_CATEGORIES" for t
    using max_key_fst [of "(''Reporting symptoms'', keyword_score SYMPTOM_REPORTING_KEYWORDS (lower t))"
        "(''Seeking reassurance'', keyword_score REASSURANCE_SEEKING_KEYWORDS (lower t))"
        "(''Confirming recovery'', keyword_score RECOVERY_CONFIRMING_KEYWORDS (lower t))"]
    by (auto simp: analyze_intent_rule_based_def INTENT_CATEGORIES_def Let_def)
  show ?thesis
    using tr it
    by (simp add: analyze_sentiment_intent_def Let_def SENTIMENT_CATEGORIES_def
                  INTENT_CATEGORIES_def)
qed

theorem sentiment_intent_total_witness:
  "dict_get [''patient_text'' \<mapsto> []] ''patient_text'' [] = []
   \<and> analyze_sentiment_intent None [''patient_text'' \<mapsto> []]
       = \<lparr>Sentiment = ''Neutral'', Intent = ''Describing condition''\<rparr>
   \<and> Sentiment (analyze_sentiment_intent None [''patient_text'' \<mapsto> ''I am worried''])
       = ''Anxious''"
proof -
  have h: "dict_get [''patient_text'' \<mapsto> []] ''patient_text'' [] = []"
    by (simp add: dict_get_def)
  have a: "Sentiment (analyze_sentiment_intent None [''patient_text'' \<mapsto> ''I am worried''])
             = ''Anxious''"
    by code_simp
  show ?thesis
    using h a sentiment_intent_total [of None "[''patient_text'' \<mapsto> []]"] by simp
qed

section \<open>The extractive summarizer on short texts\<close>

text \<open>
  C10: when no piece of the text between runs of \<open>.\<close>, \<open>!\<close> and \<open>?\<close> is longer than
  20 characters after trimming, the extractive summarizer returns the string \<open>.\<close>,
  whatever the number of sentences asked for; the empty text is such a text.
\<close>

theorem no_long_sentence_summary:
  assumes "\<forall>s \<in> set (split_sentences text). length (strip s) \<le> 20"
  shows "summarize_simple text num_sentences = ''.''"
proof -
  have "filter (\<lambda>s. length (strip s) > 20) (split_sentences text) = []"
    using assms by (auto simp: filter_empty_conv)
  then have "long_sentences 20 text = []"
    by (simp add: long_sentences_def)
  then show ?thesis
    by (simp add: summarize_simple_def top_sentences_def)
qed

theorem no_long_sentence_summary_witness:
  "list_all (\<lambda>s. length (strip s) \<le> 20) (split_sentences ''Hi. I am fine! Really?'')
   \<and> summarize_simple ''Hi. I am fine! Really?'' 3 = ''.''
   \<and> summarize_simple [] 3 = ''.''"
proof -
  have l: "list_all (\<lambda>s. length (strip s) \<le> 20) (split_sentences ''Hi. I am fine! Really?'')"
    by code_simp
  then have h: "\<forall>s \<in> set (split_sentences ''Hi. I am fine! Really?''). length (strip s) \<le> 20"
    by (simp add: list_all_iff)
  have "list_all (\<lambda>s. length (strip s) \<le> 20) (split_sentences [])"
    by code_simp
  then have e: "\<forall>s \<in> set (split_sentences []). length (strip s) \<le> 20"
    by (simp add: list_all_iff)
  show ?thesis
    using l no_long_sentence_summary [OF h, of 3] no_long_sentence_summary [OF e, of 3]
    by simp
qed

section \<open>Continuation lines\<close>

lemma append_last_eq:
  "xs \<noteq> [] \<Longrightarrow> append_last xs s = butlast xs @ [last xs @ s]"
proof (induction xs rule: rev_induct)
  case Nil
  then show ?case by simp
next
  case (snoc x xs)
  show ?case by (simp add: append_last_def nth_append)
qed

text \<open>
  C2, as the specification states it, fails: after one doctor utterance and one patient
  utterance the counts are equal, and the untagged line goes to the patient, not to the
  doctor as the rule of the specification (\<open>spec_continuation\<close>) has it.
\<close>

theorem continuation_tie_counterexample:
  "segment_lines (''Doctor: a'' @ [CHR 0x0A] @ ''Patient: b'' @ [CHR 0x0A] @ ''c'')
     = ([''a''], [''b c''], [''a'', ''b'', ''c''])
   \<and> process_line ([''a''], [''b''], [''a'', ''b'']) ''c''
       = ([''a''], [''b c''], [''a'', ''b'', ''c''])
   \<and> spec_continuation ([''a''], [''b''], [''a'', ''b'']) ''c''
       = ([''a c''], [''b''], [''a'', ''b'', ''c''])"
  by code_simp

text \<open>
  C2, amended: a non-empty line without a speaker tag is appended, after a space, to the
  last doctor utterance when the doctor has strictly more utterances than the patient;
  otherwise to the last patient utterance when the patient has one; otherwise to neither
  speaker. In every case it is appended to \<open>all_lines\<close>.
\<close>

theorem continuation_line_owner:
  assumes "strip raw \<noteq> []" and "\<not> is_tagged (strip raw)"
  shows "process_line (doctor_lines, patient_lines, all_lines) raw =
     (if length doctor_lines > length patient_lines
      then (butlast doctor_lines @ [last doctor_lines @ '' '' @ strip raw], patient_lines,
            all_lines @ [strip raw])
      else if patient_lines \<noteq> []
      then (doctor_lines, butlast patient_lines @ [last patient_lines @ '' '' @ strip raw],
            all_lines @ [strip raw])
      else (doctor_lines, patient_lines, all_lines @ [strip raw]))"
proof -
  have d: "length doctor_lines > length patient_lines \<Longrightarrow> doctor_lines \<noteq> []"
    by auto
  show ?thesis
    using assms d
    by (auto simp: is_tagged_def Let_def append_last_eq simp del: startswith.simps)
qed

theorem continuation_line_owner_witness:
  "strip ''  and my back hurts '' \<noteq> [] \<and> \<not> is_tagged (strip ''  and my back hurts '')
   \<and> process_line ([''Hello'', ''Go on''], [''My neck hurts''], [''Hello'', ''My neck hurts'', ''Go on'']) ''  and my back hurts ''
      = ([''Hello'', ''Go on and my back hurts''], [''My neck hurts''], [''Hello'', ''My neck hurts'', ''Go on'', ''and my back hurts''])"
proof -
  have h1: "strip ''  and my back hurts '' \<noteq> []" by code_simp
  have h2: "\<not> is_tagged (strip ''  and my back hurts '')" by code_simp
  have s: "strip ''  and my back hurts '' = ''and my back hurts''" by code_simp
  show ?thesis
    using h1 h2 continuation_line_owner [OF h1 h2, of "[''Hello'', ''Go on'']" "[''My neck hurts'']" "[''Hello'', ''My neck hurts'', ''Go on'']"]
    by (simp add: s)
qed

section \<open>Keyword extraction\<close>

lemma unique_top_length:
  "int (length result) < top_n \<Longrightarrow> int (length (unique_top top_n seen result kws)) \<le> top_n"
proof (induction kws arbitrary: seen result)
  case Nil
  then show ?case by simp
next
  case (Cons kw kws)
  show ?case
  proof (cases "kw \<in> seen")
    case True
    then show ?thesis using Cons by simp
  next
    case False
    show ?thesis
    proof (cases "int (length (result @ [kw])) \<ge> top_n")
      case True
      then show ?thesis using False Cons.prems by simp
    next
      case ge: False
      then have "int (length (result @ [kw])) < top_n" by simp
      from Cons.IH [OF this] show ?thesis using False ge by simp
    qed
  qed
qed

lemma unique_top_subset:
  "set (unique_top top_n seen result kws) \<subseteq> set result \<union> set kws"
proof (induction kws arbitrary: seen result)
  case Nil
  then show ?case by simp
next
  case (Cons kw kws)
  have a: "set (unique_top top_n (insert kw seen) (result @ [kw]) kws)
             \<subseteq> set (result @ [kw]) \<union> set kws"
    by (rule Cons.IH)
  have b: "set (unique_top top_n seen result kws) \<subseteq> set result \<union> set kws"
    by (rule Cons.IH)
  show ?case using a b by (auto split: if_splits)
qed

lemma most_common_nonpos: "n \<le> 0 \<Longrightarrow> most_common n items = []"
  by (simp add: most_common_def)

text \<open>
  C7: for every text, every set of keyword services and every \<open>top_n\<close> that is not
  negative (the default is 15), the keyword list has at most \<open>top_n\<close> entries, and no
  entry is a stop word or has fewer than 3 characters.
\<close>

theorem keyword_bound:
  assumes "0 \<le> top_n"
  shows "int (length (extract_keywords services text top_n)) \<le> top_n
         \<and> (\<forall>kw \<in> set (extract_keywords services text top_n).
               kw \<notin> stop_words \<and> 3 \<le> length kw)"
proof -
  define filtered where "filtered =
     filter (\<lambda>kw. kw \<notin> stop_words \<and> length kw > 2)
       (map fst (most_common (top_n * 2)
          (counter (map lower (extract_keywords_keybert services text top_n
                         @ extract_keywords_tfidf services text top_n
                         @ extract_noun_phrases services text top_n)))))"
  have ek: "extract_keywords services text top_n = unique_top top_n {} [] filtered"
    by (simp add: extract_keywords_def filtered_def Let_def)
  have len: "int (length (unique_top top_n {} [] filtered)) \<le> top_n"
  proof (cases "top_n = 0")
    case True
    then have "filtered = []" by (simp add: filtered_def most_common_nonpos)
    then show ?thesis using True by simp
  next
    case False
    then have "int (length ([] :: string list)) < top_n" using assms by simp
    then show ?thesis by (rule unique_top_length)
  qed
  have "set (unique_top top_n {} [] filtered) \<subseteq> set filtered"
    using unique_top_subset [of top_n "{}" "[]" filtered] by simp
  then have mem: "\<forall>kw \<in> set (unique_top top_n {} [] filtered). kw \<notin> stop_words \<and> 3 \<le> length kw"
    by (auto simp: filtered_def)
  show ?thesis using len mem by (simp add: ek)
qed

theorem keyword_bound_witness:
  "(0::int) \<le> 2
   \<and> extract_keywords demo_services ''some text'' 2 = [''neck pain'', ''back pain'']
   \<and> int (length (extract_keywords demo_services ''some text'' 2)) \<le> 2
   \<and> list_all (\<lambda>kw. kw \<notin> stop_words \<and> 3 \<le> length kw)
        (extract_keywords demo_services ''some text'' 2)"
proof -
  have h: "(0::int) \<le> 2" by simp
  have v: "extract_keywords demo_services ''some text'' 2 = [''neck pain'', ''back pain'']"
    by code_simp
  show ?thesis
    using h v keyword_bound [OF h, of demo_services "''some text''"]
    by (simp add: list_all_iff)
qed

section \<open>Entity extraction\<close>

lemma dedup_first_set: "set (dedup_first seen xs) = set xs - set seen"
  by (induction xs arbitrary: seen) auto

lemma dedup_first_distinct: "distinct (dedup_first seen xs)"
  by (induction xs arbitrary: seen) (auto simp: dedup_first_set)

lemma strip_not_blank:
  assumes "strip s \<noteq> []"
  shows "\<not> list_all is_space (strip s)"
proof -
  define t where "t = dropWhile is_space (rev (dropWhile is_space s))"
  have ne: "t \<noteq> []" using assms by (simp add: strip_def t_def)
  then have "\<not> is_space (hd t)"
    unfolding t_def by (rule hd_dropWhile)
  moreover have "hd t \<in> set (strip s)"
    using ne by (simp add: strip_def t_def [symmetric])
  ultimately show ?thesis by (auto simp: list_all_iff)
qed

lemma clean_items_distinct: "distinct (clean_items items)"
  by (simp add: clean_items_def dedup_first_distinct)

lemma clean_items_not_blank:
  "s \<in> set (clean_items items) \<Longrightarrow> s \<noteq> [] \<and> \<not> list_all is_space s"
  by (auto simp: clean_items_def dedup_first_set strip_not_blank)

lemma clean_items_set:
  "set (clean_items items) = strip ` set items - {[]}"
  by (auto simp: clean_items_def dedup_first_set)

lemma categories_lookup:
  assumes "(key, keywords) \<in> set CATEGORIES"
  shows "map_of (map (\<lambda>(k, kws). (k, f k kws)) CATEGORIES) key = Some (f key keywords)"
  using assms by (auto simp: CATEGORIES_def)

lemma extract_none:
  assumes "(key, keywords) \<in> set CATEGORIES"
  shows "extract_medical_entities set_list None text key = Some []"
  using categories_lookup [OF assms, of "\<lambda>k kws. []"]
  by (simp add: extract_medical_entities_def)

lemma extract_some:
  assumes "(key, keywords) \<in> set CATEGORIES"
  shows "extract_medical_entities set_list (Some nlp) text key
          = Some (clean_items (set_list (entities_get (ner_entities nlp text) key
                                          @ extract_by_keywords text keywords)))"
  using categories_lookup [OF assms,
      of "\<lambda>k kws. clean_items (set_list (entities_get (ner_entities nlp text) k
                                          @ extract_by_keywords text kws))"]
  by (simp add: extract_medical_entities_def Let_def)

text \<open>
  C6: for every text, every NER model (loaded or not), every iteration order of the
  intermediate set and every category, the list returned for the category has no
  duplicates and holds no empty and no whitespace-only string.
\<close>

theorem entity_lists_clean:
  assumes "(key, keywords) \<in> set CATEGORIES"
  shows "\<exists>out. extract_medical_entities set_list nlp_opt text key = Some out
           \<and> distinct out \<and> (\<forall>s \<in> set out. s \<noteq> [] \<and> \<not> list_all is_space s)"
proof (cases nlp_opt)
  case None
  then show ?thesis using extract_none [OF assms] by simp
next
  case (Some nlp)
  then show ?thesis
    using extract_some [OF assms, of set_list nlp "text"] clean_items_distinct clean_items_not_blank
    by blast
qed

lemma demo_keyword_results:
  "extract_by_keywords demo_text SYMPTOM_KEYWORDS = [''Neck pain now.'']"
  by code_simp

lemma demo_model_results:
  "entities_get (ner_entities demo_nlp demo_text) ''Symptoms'' = [''neck pain'', '' neck pain '']"
  by code_simp

lemma demo_symptoms: "(''Symptoms'', SYMPTOM_KEYWORDS) \<in> set CATEGORIES"
  by (simp add: CATEGORIES_def)

theorem entity_lists_clean_witness:
  "(''Symptoms'', SYMPTOM_KEYWORDS) \<in> set CATEGORIES
   \<and> extract_medical_entities remdups (Some demo_nlp) demo_text ''Symptoms''
       = Some [''neck pain'', ''Neck pain now.'']
   \<and> (\<exists>out. extract_medical_entities remdups (Some demo_nlp) demo_text ''Symptoms'' = Some out
           \<and> distinct out \<and> (\<forall>s \<in> set out. s \<noteq> [] \<and> \<not> list_all is_space s))"
proof -
  have c: "clean_items (remdups ([''neck pain'', '' neck pain ''] @ [''Neck pain now.'']))
             = [''neck pain'', ''Neck pain now.'']"
    by code_simp
  have v: "extract_medical_entities remdups (Some demo_nlp) demo_text ''Symptoms''
       = Some [''neck pain'', ''Neck pain now.'']"
    using extract_some [OF demo_symptoms, of remdups demo_nlp demo_text] c
    by (simp only: demo_keyword_results demo_model_results)
  show ?thesis
    using demo_symptoms v
          entity_lists_clean [OF demo_symptoms, of remdups "Some demo_nlp" demo_text]
    by simp
qed

text \<open>
  C5, as the specification states it, fails: without a loaded NER model the extractor
  returns the empty list for \<open>Symptoms\<close>, while the merge of the specification (no
  model-based results, then the keyword-window results) holds the sentence found by the
  keyword \<open>pain\<close>.
\<close>

theorem merge_without_model_counterexample:
  "extract_medical_entities remdups None demo_text ''Symptoms'' = Some []
   \<and> spec_merge (spec_model_results None demo_text ''Symptoms'')
                (extract_by_keywords demo_text SYMPTOM_KEYWORDS)
       = [''Neck pain now.'']"
proof -
  have m: "spec_merge [] [''Neck pain now.''] = [''Neck pain now.'']"
    by code_simp
  show ?thesis
    using extract_none [OF demo_symptoms, of remdups demo_text] m
    by (simp add: demo_keyword_results spec_model_results_def)
qed

lemma spec_merge_set:
  "set (spec_merge xs ys) = strip ` set (xs @ ys) - {[]}"
  by (auto simp: spec_merge_def dedup_first_set)

text \<open>
  C5, amended: without a loaded NER model every category is the empty list. With a loaded
  model, the list of a category has no duplicates and holds exactly the strings of the
  merge of the specification: the model-based results and the keyword-window results,
  trimmed, without the empty strings. Nothing is said about the order of the list, which
  is the iteration order of the intermediate set.
\<close>

theorem merged_entities:
  assumes "lists_a_set set_list" and "(key, keywords) \<in> set CATEGORIES"
  shows "extract_medical_entities set_list None text key = Some []
         \<and> (\<exists>out. extract_medical_entities set_list (Some nlp) text key = Some out
               \<and> distinct out
               \<and> set out = set (spec_merge (spec_model_results (Some nlp) text key)
                                           (extract_by_keywords text keywords)))"
proof -
  have s: "set (set_list xs) = set xs" for xs
    using assms(1) by (simp add: lists_a_set_def)
  have "set (clean_items (set_list (entities_get (ner_entities nlp text) key
                                     @ extract_by_keywords text keywords)))
        = set (spec_merge (spec_model_results (Some nlp) text key)
                          (extract_by_keywords text keywords))"
    by (simp only: clean_items_set spec_merge_set s spec_model_results_def option.case)
  then show ?thesis
    using extract_none [OF assms(2)] extract_some [OF assms(2), of set_list nlp "text"]
          clean_items_distinct
    by simp
qed

theorem merged_entities_witness:
  "lists_a_set (\<lambda>xs. rev (remdups xs)) \<and> (''Symptoms'', SYMPTOM_KEYWORDS) \<in> set CATEGORIES
   \<and> extract_medical_entities (\<lambda>xs. rev (remdups xs)) (Some demo_nlp) demo_text ''Symptoms''
       = Some [''Neck pain now.'', ''neck pain'']
   \<and> spec_merge (spec_model_results (Some demo_nlp) demo_text ''Symptoms'')
                (extract_by_keywords demo_text SYMPTOM_KEYWORDS)
       = [''neck pain'', ''Neck pain now.'']
   \<and> (\<exists>out. extract_medical_entities (\<lambda>xs. rev (remdups xs)) (Some demo_nlp) demo_text
                 ''Symptoms'' = Some out
               \<and> distinct out
               \<and> set out = set (spec_merge (spec_model_results (Some demo_nlp) demo_text ''Symptoms'')
                                           (extract_by_keywords demo_text SYMPTOM_KEYWORDS)))"
proof -
  have h1: "lists_a_set (\<lambda>xs. rev (remdups xs))" by (simp add: lists_a_set_def)
  have c: "clean_items (rev (remdups ([''neck pain'', '' neck pain ''] @ [''Neck pain now.''])))
             = [''Neck pain now.'', ''neck pain'']"
    by code_simp
  have v1: "extract_medical_entities (\<lambda>xs. rev (remdups xs)) (Some demo_nlp) demo_text ''Symptoms''
       = Some [''Neck pain now.'', ''neck pain'']"
    using extract_some [OF demo_symptoms, of "\<lambda>xs. rev (remdups xs)" demo_nlp demo_text] c
    by (simp only: demo_keyword_results demo_model_results)
  have m: "spec_merge [''neck pain'', '' neck pain ''] [''Neck pain now.'']
             = [''neck pain'', ''Neck pain now.'']"
    by code_simp
  have v2: "spec_merge (spec_model_results (Some demo_nlp) demo_text ''Symptoms'')
                (extract_by_keywords demo_text SYMPTOM_KEYWORDS)
       = [''neck pain'', ''Neck pain now.'']"
    using m by (simp add: spec_model_results_def demo_keyword_results demo_model_results)
  show ?thesis
    using h1 demo_symptoms v1 v2 merged_entities [OF h1 demo_symptoms, of demo_text demo_nlp]
    by simp
qed

section \<open>The extractive summarizer on long texts\<close>

lemma insort_key_map:
  "insort_key f (g x) (map g ys) = map g (insort_key (\<lambda>a. f (g a)) x ys)"
  by (induction ys) simp_all

lemma sort_key_map: "sort_key f (map g xs) = map g (sort_key (\<lambda>a. f (g a)) xs)"
  by (induction xs) (simp_all add: insort_key_map)

lemma sorted_by_index_unique:
  assumes sub: "set best \<subseteq> set (enumerate 0 ss)" and dist: "distinct best"
  shows "sort_key fst best = filter (\<lambda>p. p \<in> set best) (enumerate 0 ss)"
proof -
  let ?E = "enumerate 0 ss"
  let ?A = "sort_key fst best"
  let ?B = "filter (\<lambda>p. p \<in> set best) ?E"
  have injE: "inj_on fst (set ?E)"
    using distinct_map [of fst ?E] by simp
  have sA: "sorted (map fst ?A)" by (rule sorted_sort_key)
  have "sorted (map fst ?E)" by simp
  then have sB: "sorted (map fst ?B)" by (rule sorted_filter)
  have "inj_on fst (set best)" using injE sub by (rule inj_on_subset)
  then have dA: "distinct (map fst ?A)" using dist by (simp add: distinct_map)
  have "distinct (map fst ?E)" by simp
  then have dB: "distinct (map fst ?B)" by (rule distinct_map_filter)
  have eqset: "set (map fst ?A) = set (map fst ?B)" using sub by auto
  have m: "map fst ?A = map fst ?B"
    using sA dA sB dB eqset by (rule sorted_distinct_set_unique)
  have "inj_on fst (set ?A \<union> set ?B)"
    using injE sub by (auto intro: inj_on_subset)
  with m show ?thesis by (rule map_inj_on)
qed

lemma filter_by_text:
  assumes sub: "set best \<subseteq> set (enumerate 0 ss)" and dist: "distinct ss"
  shows "filter (\<lambda>s. s \<in> set (map snd best)) ss
         = map snd (filter (\<lambda>p. p \<in> set best) (enumerate 0 ss))"
proof -
  let ?E = "enumerate 0 ss"
  have injS: "inj_on snd (set ?E)"
    using dist distinct_map [of snd ?E] by simp
  have c: "filter ((\<lambda>s. s \<in> set (map snd best)) \<circ> snd) ?E = filter (\<lambda>p. p \<in> set best) ?E"
  proof (rule filter_cong [OF refl])
    fix p assume p: "p \<in> set ?E"
    show "((\<lambda>s. s \<in> set (map snd best)) \<circ> snd) p = (p \<in> set best)"
    proof
      assume "((\<lambda>s. s \<in> set (map snd best)) \<circ> snd) p"
      then obtain q where q: "q \<in> set best" "snd q = snd p" by auto
      then have "q \<in> set ?E" using sub by auto
      with injS p q(2) have "q = p" by (auto dest: inj_onD)
      with q(1) show "p \<in> set best" by simp
    next
      assume "p \<in> set best"
      then show "((\<lambda>s. s \<in> set (map snd best)) \<circ> snd) p" by auto
    qed
  qed
  have "filter (\<lambda>s. s \<in> set (map snd best)) ss
        = filter (\<lambda>s. s \<in> set (map snd best)) (map snd ?E)" by simp
  also have "\<dots> = map snd (filter ((\<lambda>s. s \<in> set (map snd best)) \<circ> snd) ?E)"
    by (rule filter_map)
  finally show ?thesis by (simp only: c)
qed

lemma top_sentences_spec:
  assumes dist: "distinct ss" and K: "0 \<le> K"
  shows "top_sentences ss K = spec_top_sentences sentence_score ss (nat K)"
proof -
  let ?E = "enumerate 0 ss"
  let ?key = "\<lambda>(i, s). - int (sentence_score i (length ss) s)"
  let ?g = "\<lambda>(i, sentence). (sentence_score i (length ss) sentence, sentence)"
  define best where "best = take (nat K) (sort_key ?key ?E)"
  have k: "(\<lambda>a. - int (fst (?g a))) = ?key" by (auto simp: fun_eq_iff)
  have sg: "snd \<circ> ?g = snd" by (auto simp: fun_eq_iff)
  have "slice_to K (sort_desc (scored_sentences ss)) = map ?g best"
    using K by (simp add: slice_to_def sort_desc_def scored_sentences_def sort_key_map k
                          best_def take_map)
  then have top: "map snd (slice_to K (sort_desc (scored_sentences ss))) = map snd best"
    by (simp add: sg)
  have sub: "set best \<subseteq> set ?E"
    unfolding best_def using set_take_subset [of "nat K" "sort_key ?key ?E"] by simp
  have db: "distinct best" by (simp add: best_def)
  have "top_sentences ss K = filter (\<lambda>s. s \<in> set (map snd best)) ss"
    by (simp only: top_sentences_def top Let_def)
  also have "\<dots> = map snd (filter (\<lambda>p. p \<in> set best) ?E)"
    using sub dist by (rule filter_by_text)
  also have "\<dots> = map snd (sort_key fst best)"
    using sorted_by_index_unique [OF sub db] by simp
  finally show ?thesis
    by (simp add: spec_top_sentences_def best_def Let_def)
qed

lemma spec_top_length:
  "K \<le> length ss \<Longrightarrow> length (spec_top_sentences score ss K) = K"
  by (simp add: spec_top_sentences_def Let_def)

lemma summary_text_sentences:
  "long_sentences 20 summary_text =
     [''The patient has a bad injury today'', ''It is pain and pain and pain'',
      ''We walked along the old river bank yesterday evening'',
      ''The doctor said the treatment helps recovery'']"
  by code_simp

lemma summary_text_scores:
  "sentence_score 0 (Suc (Suc (Suc (Suc 0)))) ''The patient has a bad injury today'' = 84"
  "sentence_score (Suc 0) (Suc (Suc (Suc (Suc 0)))) ''It is pain and pain and pain'' = 48"
  "sentence_score (Suc (Suc 0)) (Suc (Suc (Suc (Suc 0))))
     ''We walked along the old river bank yesterday evening'' = 52"
  "sentence_score (Suc (Suc (Suc 0))) (Suc (Suc (Suc (Suc 0))))
     ''The doctor said the treatment helps recovery'' = 114"
  by code_simp+

lemma summary_text_spec_scores:
  "spec_sentence_score 0 (Suc (Suc (Suc (Suc 0)))) ''The patient has a bad injury today'' = 84"
  "spec_sentence_score (Suc 0) (Suc (Suc (Suc (Suc 0)))) ''It is pain and pain and pain'' = 88"
  "spec_sentence_score (Suc (Suc 0)) (Suc (Suc (Suc (Suc 0))))
     ''We walked along the old river bank yesterday evening'' = 52"
  "spec_sentence_score (Suc (Suc (Suc 0))) (Suc (Suc (Suc (Suc 0))))
     ''The doctor said the treatment helps recovery'' = 114"
  by code_simp+

lemma summary_text_pain_scores:
  "sentence_score 1 4 ''It is pain and pain and pain'' = 48
   \<and> spec_sentence_score 1 4 ''It is pain and pain and pain'' = 88"
  by code_simp

lemma summary_text_top:
  "top_sentences
     [''The patient has a bad injury today'', ''It is pain and pain and pain'',
      ''We walked along the old river bank yesterday evening'',
      ''The doctor said the treatment helps recovery''] 3
   = [''The patient has a bad injury today'',
      ''We walked along the old river bank yesterday evening'',
      ''The doctor said the treatment helps recovery'']"
  by (simp add: top_sentences_def scored_sentences_def sort_desc_def slice_to_def
                summary_text_scores)

lemma summary_text_spec_top:
  "spec_top_sentences spec_sentence_score
     [''The patient has a bad injury today'', ''It is pain and pain and pain'',
      ''We walked along the old river bank yesterday evening'',
      ''The doctor said the treatment helps recovery''] 3
   = [''The patient has a bad injury today'', ''It is pain and pain and pain'',
      ''The doctor said the treatment helps recovery'']"
  by (simp add: spec_top_sentences_def summary_text_spec_scores)

text \<open>
  C4, as the specification states it, fails: with the score counting every occurrence of a
  medical keyword, the sentence with three occurrences of \<open>pain\<close> scores 88 and is
  among the best three; the code adds 20 once for a keyword that occurs, scores it 48, and
  selects the longer sentence without keywords instead.
\<close>

theorem summary_counterexample:
  "summarize_simple summary_text 3 =
     ''The patient has a bad injury today. ''
     @ ''We walked along the old river bank yesterday evening. ''
     @ ''The doctor said the treatment helps recovery.''
   \<and> spec_summarize spec_sentence_score summary_text 3 =
     ''The patient has a bad injury today. It is pain and pain and pain. ''
     @ ''The doctor said the treatment helps recovery.''
   \<and> sentence_score 1 4 ''It is pain and pain and pain'' = 48
   \<and> spec_sentence_score 1 4 ''It is pain and pain and pain'' = 88"
  using summary_text_pain_scores
  by (simp add: summarize_simple_def spec_summarize_def summary_text_sentences
                summary_text_top summary_text_spec_top)

text \<open>
  C4, amended: a sentence scores its length, plus 20 for every medical keyword that
  occurs in its lower-cased form (once for a keyword, however often it occurs), plus 10
  when it is the first or the last sentence. For a text with more than \<open>K\<close> sentences
  longer than 20 characters (\<open>K\<close> not negative) that are pairwise different, the
  summary consists of the \<open>K\<close> sentences of highest score, earlier sentences first
  among equal scores, in their textual order, joined with a period and a space and closed
  by a period.
\<close>

theorem extractive_summary:
  assumes "distinct (long_sentences 20 text)" and "0 \<le> K"
      and "K < int (length (long_sentences 20 text))"
  shows "summarize_simple text K = spec_summarize sentence_score text (nat K)
         \<and> length (top_sentences (long_sentences 20 text) K) = nat K"
proof -
  have t: "top_sentences (long_sentences 20 text) K
           = spec_top_sentences sentence_score (long_sentences 20 text) (nat K)"
    using assms(1,2) by (rule top_sentences_spec)
  have "nat K \<le> length (long_sentences 20 text)" using assms(2,3) by simp
  then have l: "length (spec_top_sentences sentence_score (long_sentences 20 text) (nat K)) = nat K"
    by (rule spec_top_length)
  show ?thesis
    using assms(3) t l by (simp add: summarize_simple_def spec_summarize_def Let_def)
qed

theorem extractive_summary_witness:
  "distinct (long_sentences 20 summary_text) \<and> (0::int) \<le> 3
   \<and> 3 < int (length (long_sentences 20 summary_text))
   \<and> summarize_simple summary_text 3 = spec_summarize sentence_score summary_text (nat 3)
   \<and> length (top_sentences (long_sentences 20 summary_text) 3) = nat 3"
proof -
  have d: "distinct (long_sentences 20 summary_text)"
    by (simp add: summary_text_sentences)
  have k: "(0::int) \<le> 3" by simp
  have n: "3 < int (length (long_sentences 20 summary_text))"
    by (simp add: summary_text_sentences)
  show ?thesis
    using d k n extractive_summary [OF d k n] by simp
qed

section \<open>Substrings\<close>

lemma startswith_iff: "startswith s p \<longleftrightarrow> (\<exists>v. s = p @ v)"
  by (induction s p rule: startswith.induct) auto

lemma contains_iff: "contains s p \<longleftrightarrow> (\<exists>u v. s = u @ p @ v)"
proof (induction s)
  case Nil
  then show ?case by auto
next
  case (Cons c cs)
  show ?case
  proof
    assume "contains (c # cs) p"
    then consider "startswith (c # cs) p" | "contains cs p" by auto
    then show "\<exists>u v. c # cs = u @ p @ v"
    proof cases
      case 1
      then obtain v where "c # cs = p @ v" by (auto simp: startswith_iff)
      then have "c # cs = [] @ p @ v" by simp
      then show ?thesis by blast
    next
      case 2
      then obtain u v where "cs = u @ p @ v" using Cons.IH by auto
      then have "c # cs = (c # u) @ p @ v" by simp
      then show ?thesis by blast
    qed
  next
    assume "\<exists>u v. c # cs = u @ p @ v"
    then obtain u v where e: "c # cs = u @ p @ v" by auto
    show "contains (c # cs) p"
    proof (cases u)
      case Nil
      then have "startswith (c # cs) p" using e by (auto simp: startswith_iff)
      then show ?thesis by simp
    next
      case (Cons a u')
      then have "cs = u' @ p @ v" using e by simp
      then have "contains cs p" using Cons.IH by auto
      then show ?thesis by simp
    qed
  qed
qed

lemma contains_part: "contains x p \<Longrightarrow> contains (u @ x @ v) p"
proof -
  assume "contains x p"
  then obtain a b where "x = a @ p @ b" by (auto simp: contains_iff)
  then have "u @ x @ v = (u @ a) @ p @ (b @ v)" by simp
  then show ?thesis unfolding contains_iff by blast
qed

lemma contains_suffix: "contains x p \<Longrightarrow> contains (u @ x) p"
  using contains_part [of x p u "[]"] by simp

lemma contains_drop: "contains (drop n s) p \<Longrightarrow> contains s p"
  using contains_suffix [of "drop n s" p "take n s"] by simp

lemma contains_dropWhile: "contains (dropWhile P s) p \<Longrightarrow> contains s p"
  using contains_suffix [of "dropWhile P s" p "takeWhile P s"] by simp

lemma strip_part: "\<exists>u v. s = u @ strip s @ v"
proof -
  let ?t = "dropWhile is_space s"
  have 1: "s = takeWhile is_space s @ ?t" by simp
  have "rev (takeWhile is_space (rev ?t) @ dropWhile is_space (rev ?t)) = ?t"
    by (simp only: takeWhile_dropWhile_id rev_rev_ident)
  then have "rev (dropWhile is_space (rev ?t)) @ rev (takeWhile is_space (rev ?t)) = ?t"
    by (simp only: rev_append)
  then have 2: "?t = strip s @ rev (takeWhile is_space (rev ?t))"
    by (simp only: strip_def)
  have "s = takeWhile is_space s @ strip s @ rev (takeWhile is_space (rev ?t))"
    using 1 2 by metis
  then show ?thesis by blast
qed

lemma contains_strip: "contains (strip s) p \<Longrightarrow> contains s p"
proof -
  assume a: "contains (strip s) p"
  obtain u v where "s = u @ strip s @ v" using strip_part by blast
  with contains_part [OF a, of u v] show ?thesis by simp
qed

lemma contains_Nil: "contains [] p \<longleftrightarrow> p = []"
  by simp

lemma startswith_before_char:
  "c \<notin> set p \<Longrightarrow> startswith (x @ c # y) p \<Longrightarrow> startswith x p"
proof (induction p arbitrary: x)
  case Nil
  then show ?case by simp
next
  case (Cons q qs)
  then show ?case by (cases x) auto
qed

lemma contains_across_char:
  "c \<notin> set p \<Longrightarrow> contains (x @ c # y) p \<Longrightarrow> contains x p \<or> contains y p"
proof (induction x)
  case Nil
  then show ?case by (cases p) auto
next
  case (Cons a x)
  from Cons.prems(2) consider "startswith ((a # x) @ c # y) p" | "contains (x @ c # y) p"
    by auto
  then show ?case
  proof cases
    case 1
    then have "startswith (a # x) p" using Cons.prems(1) by (rule startswith_before_char [rotated])
    then show ?thesis by simp
  next
    case 2
    then show ?thesis using Cons.IH Cons.prems(1) by auto
  qed
qed

lemma contains_join:
  assumes "CHR '' '' \<notin> set p" and "p \<noteq> []"
  shows "contains (join '' '' xs) p \<Longrightarrow> \<exists>x \<in> set xs. contains x p"
proof (induction "'' ''" xs rule: join.induct)
  case 1
  then show ?case using assms(2) by simp
next
  case (2 x)
  then show ?case by simp
next
  case (3 x y ys)
  from "3.prems" have "contains (x @ CHR '' '' # join '' '' (y # ys)) p" by simp
  then have "contains x p \<or> contains (join '' '' (y # ys)) p"
    using assms(1) by (rule contains_across_char [rotated])
  then show ?case using "3.hyps" by auto
qed

lemma startswith_collapse_ws:
  "\<forall>c \<in> set p. \<not> is_space c \<Longrightarrow> startswith (collapse_ws s) p \<Longrightarrow> startswith s p"
proof (induction p arbitrary: s)
  case Nil
  then show ?case by simp
next
  case (Cons q qs)
  have sp: "is_space (CHR '' '')" by (simp add: is_space_def)
  show ?case
  proof (cases s)
    case Nil
    then show ?thesis using Cons.prems by simp
  next
    case (Cons c cs)
    then show ?thesis using Cons.prems Cons.IH [of cs] sp by (auto split: if_splits)
  qed
qed

lemma contains_collapse_ws:
  assumes "\<forall>c \<in> set p. \<not> is_space c" and "p \<noteq> []"
  shows "contains (collapse_ws s) p \<Longrightarrow> contains s p"
proof (induction s rule: collapse_ws.induct)
  case 1
  then show ?case using assms(2) by simp
next
  case (2 c cs)
  have sp: "is_space (CHR '' '')" by (simp add: is_space_def)
  show ?case
  proof (cases "is_space c")
    case True
    then have "startswith (CHR '' '' # collapse_ws (dropWhile is_space cs)) p
               \<or> contains (collapse_ws (dropWhile is_space cs)) p"
      using "2.prems" by simp
    moreover have "\<not> startswith (CHR '' '' # collapse_ws (dropWhile is_space cs)) p"
      using assms sp by (cases p) auto
    ultimately have "contains (dropWhile is_space cs) p" using "2.IH"(1) True by simp
    then have "contains cs p" by (rule contains_dropWhile)
    then show ?thesis by simp
  next
    case False
    then consider "startswith (collapse_ws (c # cs)) p" | "contains (collapse_ws cs) p"
      using "2.prems" by auto
    then show ?thesis
    proof cases
      case 1
      then have "startswith (c # cs) p" using assms(1) by (rule startswith_collapse_ws [rotated])
      then show ?thesis by simp
    next
      case 2
      then show ?thesis using "2.IH"(2) False by simp
    qed
  qed
qed

lemma startswith_collapse_dots:
  "CHR ''.'' \<notin> set p \<Longrightarrow> startswith (collapse_dots s) p \<Longrightarrow> startswith s p"
proof (induction p arbitrary: s)
  case Nil
  then show ?case by simp
next
  case (Cons q qs)
  show ?case
  proof (cases s)
    case Nil
    then show ?thesis using Cons.prems by simp
  next
    case (Cons c cs)
    then show ?thesis using Cons.prems Cons.IH [of cs] by (auto split: if_splits)
  qed
qed

lemma contains_collapse_dots:
  assumes "CHR ''.'' \<notin> set p" and "p \<noteq> []"
  shows "contains (collapse_dots s) p \<Longrightarrow> contains s p"
proof (induction s rule: collapse_dots.induct)
  case 1
  then show ?case using assms(2) by simp
next
  case (2 c cs)
  show ?case
  proof (cases "c = CHR ''.''")
    case True
    then have "startswith (CHR ''.'' # collapse_dots (dropWhile (\<lambda>d. d = CHR ''.'') cs)) p
               \<or> contains (collapse_dots (dropWhile (\<lambda>d. d = CHR ''.'') cs)) p"
      using "2.prems" by simp
    moreover have "\<not> startswith (CHR ''.'' # collapse_dots (dropWhile (\<lambda>d. d = CHR ''.'') cs)) p"
      using assms by (cases p) auto
    ultimately have "contains (dropWhile (\<lambda>d. d = CHR ''.'') cs) p"
      using "2.IH"(1) True by simp
    then have "contains cs p" by (rule contains_dropWhile)
    then show ?thesis by simp
  next
    case False
    then consider "startswith (collapse_dots (c # cs)) p" | "contains (collapse_dots cs) p"
      using "2.prems" by auto
    then show ?thesis
    proof cases
      case 1
      then have "startswith (c # cs) p"
        using assms(1) by (rule startswith_collapse_dots [rotated])
      then show ?thesis by simp
    next
      case 2
      then show ?thesis using "2.IH"(2) False by simp
    qed
  qed
qed

lemma contains_normalize_join:
  assumes "\<forall>c \<in> set p. \<not> is_space c" and "CHR ''.'' \<notin> set p" and "p \<noteq> []"
    and "contains (normalize_text (join '' '' xs)) p"
  shows "\<exists>x \<in> set xs. contains x p"
proof -
  have sp: "is_space (CHR '' '')" by (simp add: is_space_def)
  have "contains (collapse_dots (collapse_ws (join '' '' xs))) p"
    using assms(4) unfolding normalize_text_def by (rule contains_strip)
  then have "contains (collapse_ws (join '' '' xs)) p"
    using assms(2,3) contains_collapse_dots by blast
  then have "contains (join '' '' xs) p"
    using assms(1,3) contains_collapse_ws by blast
  moreover have "CHR '' '' \<notin> set p" using assms(1) sp by auto
  ultimately show ?thesis using assms(3) contains_join by blast
qed

lemma replace_id: "old \<noteq> [] \<Longrightarrow> \<not> contains s old \<Longrightarrow> replace old new s = s"
  by (induction s) auto

lemma replace_tag:
  assumes "T \<noteq> []" and "startswith l T" and "\<not> contains (tl l) T"
  shows "replace T [] l = drop (length T) l"
proof (cases l)
  case Nil
  then show ?thesis using assms by (cases T) auto
next
  case (Cons c cs)
  have "drop (length T) (c # cs) = drop (length T - 1) cs"
    using assms(1) by (cases T) auto
  moreover have "\<not> contains (drop (length T - 1) cs) T"
    using assms(3) Cons contains_drop by auto
  ultimately have "replace T [] (drop (length T) (c # cs)) = drop (length T) (c # cs)"
    using assms(1) by (simp add: replace_id)
  then show ?thesis using assms(1,2) Cons by simp
qed

section \<open>The lines of the full text\<close>

lemma process_line_all:
  "snd (snd (process_line (d, p, a) raw))
     = (if strip raw = [] then a else a @ [line_content (strip raw)])"
  by (simp add: line_content_def Let_def del: startswith.simps)

lemma foldl_all_lines:
  "snd (snd (foldl process_line (d, p, a) ls))
     = a @ map line_content (filter (\<lambda>l. l \<noteq> []) (map strip ls))"
proof (induction ls arbitrary: d p a)
  case Nil
  then show ?case by simp
next
  case (Cons raw ls)
  obtain d' p' a' where st: "process_line (d, p, a) raw = (d', p', a')"
    by (cases "process_line (d, p, a) raw") auto
  have a': "a' = (if strip raw = [] then a else a @ [line_content (strip raw)])"
    using process_line_all [of d p a raw] st by simp
  show ?case using Cons.IH [of d' p' a'] st a' by simp
qed

lemma segment_all_lines:
  "snd (snd (segment_lines transcript)) = map line_content (content_lines transcript)"
  by (simp add: segment_lines_def content_lines_def foldl_all_lines)

lemma full_text_eq:
  "dict_get (segment_conversation transcript) ''full_text'' []
     = normalize_text (join '' '' (map line_content (content_lines transcript)))"
  using segment_all_lines [of transcript]
  by (cases "segment_lines transcript") (simp add: segment_conversation_def dict_get_def)

section \<open>The patient name\<close>

lemma line_content_no_tag:
  assumes "tags_only_leading l"
  shows "\<not> contains (line_content l) ''Patient:''"
proof -
  have nd: "\<not> contains (tl l) ''Doctor:''" and np: "\<not> contains (tl l) ''Patient:''"
    using assms by (simp_all add: tags_only_leading_def)
  have drop_free: "\<not> contains (drop n l) ''Patient:''" if "0 < n" for n
  proof
    assume c: "contains (drop n l) ''Patient:''"
    from that obtain m where "n = Suc m" by (cases n) auto
    then have "contains (drop m (tl l)) ''Patient:''" using c by (simp add: drop_Suc)
    then have "contains (tl l) ''Patient:''" by (rule contains_drop)
    then show False using np by simp
  qed
  show ?thesis
  proof (cases "startswith l ''Doctor:''")
    case True
    have "replace ''Doctor:'' [] l = drop (length ''Doctor:'') l"
      using True nd by (intro replace_tag) simp_all
    then have "\<not> contains (replace ''Doctor:'' [] l) ''Patient:''"
      using drop_free [of "length ''Doctor:''"] by simp
    then have "\<not> contains (strip (replace ''Doctor:'' [] l)) ''Patient:''"
      using contains_strip by blast
    then show ?thesis using True by (simp add: line_content_def del: startswith.simps)
  next
    case nodoc: False
    show ?thesis
    proof (cases "startswith l ''Patient:''")
      case True
      have "replace ''Patient:'' [] l = drop (length ''Patient:'') l"
        using True np by (intro replace_tag) simp_all
      then have "\<not> contains (replace ''Patient:'' [] l) ''Patient:''"
        using drop_free [of "length ''Patient:''"] by simp
      then have "\<not> contains (strip (replace ''Patient:'' [] l)) ''Patient:''"
        using contains_strip by blast
      then show ?thesis using True nodoc by (simp add: line_content_def del: startswith.simps)
    next
      case False
      have "\<not> contains l ''Patient:''"
      proof (cases l)
        case Nil
        then show ?thesis by simp
      next
        case (Cons c cs)
        then show ?thesis using False np by (simp del: startswith.simps)
      qed
      then show ?thesis using False nodoc by (simp add: line_content_def del: startswith.simps)
    qed
  qed
qed

lemma pattern1_needs_tag: "match_pattern1 s \<noteq> None \<Longrightarrow> startswith s ''Patient:''"
  by (auto simp: match_pattern1_def simp del: startswith.simps split: if_splits)

lemma search_pattern1_none:
  "\<not> contains s ''Patient:'' \<Longrightarrow> re_search match_pattern1 s = None"
proof (induction s)
  case Nil
  have "\<not> startswith [] ''Patient:''" by simp
  then have "match_pattern1 [] = None" using pattern1_needs_tag by blast
  then show ?case by simp
next
  case (Cons c cs)
  then have "\<not> startswith (c # cs) ''Patient:''" and "\<not> contains cs ''Patient:''"
    by (simp_all del: startswith.simps)
  then have "match_pattern1 (c # cs) = None" and "re_search match_pattern1 cs = None"
    using pattern1_needs_tag Cons.IH by blast+
  then show ?case by simp
qed

text \<open>
  C9: when in every line of the transcript (trimmed) the tags \<open>Doctor:\<close> and
  \<open>Patient:\<close> occur at most in front, the \<open>full_text\<close> of the segmentation does not
  contain \<open>Patient:\<close>, the first pattern of the name extractor finds no match in it,
  and the reported patient name is the match of the second pattern, or \<open>Patient\<close> when
  there is none.
\<close>

theorem patient_tag_stripped:
  assumes "tags_lead_every_line transcript"
  shows "\<not> contains (dict_get (segment_conversation transcript) ''full_text'' []) ''Patient:''
         \<and> re_search match_pattern1
              (dict_get (segment_conversation transcript) ''full_text'' []) = None
         \<and> report_patient_name transcript
             = (case re_search match_pattern2
                       (dict_get (segment_conversation transcript) ''full_text'' []) of
                  Some g \<Rightarrow> g
                | None \<Rightarrow> ''Patient'')"
proof -
  let ?full = "dict_get (segment_conversation transcript) ''full_text'' []"
  have sp: "\<forall>c \<in> set ''Patient:''. \<not> is_space c" by (simp add: is_space_def)
  have free: "\<not> contains ?full ''Patient:''"
  proof
    assume "contains ?full ''Patient:''"
    then have "contains (normalize_text (join '' ''
                 (map line_content (content_lines transcript)))) ''Patient:''"
      by (simp only: full_text_eq)
    then have "\<exists>x \<in> set (map line_content (content_lines transcript)). contains x ''Patient:''"
      using sp by (intro contains_normalize_join) simp_all
    then obtain l where "l \<in> set (content_lines transcript)"
        and c: "contains (line_content l) ''Patient:''" by auto
    then have "tags_only_leading l"
      using assms by (simp add: tags_lead_every_line_def list_all_iff)
    then show False using c line_content_no_tag by blast
  qed
  then have none: "re_search match_pattern1 ?full = None" by (rule search_pattern1_none)
  show ?thesis
    using free none by (simp add: report_patient_name_def extract_patient_name_def)
qed

lemma greeting_tags: "tags_lead_every_line greeting_transcript"
  by code_simp

lemma greeting_full_text:
  "dict_get (segment_conversation greeting_transcript) ''full_text'' []
     = ''Hi Bob, how are you? Fine, thanks''"
  by code_simp

lemma greeting_pattern2:
  "re_search match_pattern2 ''Hi Bob, how are you? Fine, thanks'' = Some ''Hi Bob''"
  by code_simp

theorem patient_tag_stripped_witness:
  "tags_lead_every_line greeting_transcript
   \<and> \<not> contains (dict_get (segment_conversation greeting_transcript) ''full_text'' [])
          ''Patient:''
   \<and> re_search match_pattern1
        (dict_get (segment_conversation greeting_transcript) ''full_text'' []) = None
   \<and> report_patient_name greeting_transcript = ''Hi Bob''"
proof -
  have t: "\<not> contains ''Hi Bob, how are you? Fine, thanks'' ''Patient:''
           \<and> re_search match_pattern1 ''Hi Bob, how are you? Fine, thanks'' = None
           \<and> report_patient_name greeting_transcript = ''Hi Bob''"
    using patient_tag_stripped [OF greeting_tags]
    by (simp only: greeting_full_text greeting_pattern2 option.case simp_thms)
  show ?thesis
    unfolding greeting_full_text using greeting_tags t by (rule conjI)
qed

section \<open>Tokens\<close>

declare tokens.simps [simp del]

lemma tokens_Nil: "tokens [] = []"
  by (simp add: tokens.simps [of "[]"])

lemma tokens_space: "is_space c \<Longrightarrow> tokens (c # s) = tokens s"
  by (simp add: tokens.simps [of "c # s"] tokens.simps [of s])

lemma tokens_word:
  "\<not> is_space c \<Longrightarrow>
   tokens (c # s) = (c # takeWhile (\<lambda>d. \<not> is_space d) s) # tokens (dropWhile (\<lambda>d. \<not> is_space d) s)"
  by (simp add: tokens.simps [of "c # s"])

lemma tokens_dropWhile: "tokens (dropWhile is_space s) = tokens s"
  by (induction s) (simp_all add: tokens_space)

lemma tokens_all_space: "\<forall>c \<in> set s. is_space c \<Longrightarrow> tokens s = []"
  by (induction s) (simp_all add: tokens_Nil tokens_space)

lemma takeWhile_stop: "\<not> P c \<Longrightarrow> takeWhile P (x @ c # y) = takeWhile P x"
  by (induction x) simp_all

lemma dropWhile_stop: "\<not> P c \<Longrightarrow> dropWhile P (x @ c # y) = dropWhile P x @ c # y"
  by (induction x) simp_all

lemma tokens_sep: "is_space c \<Longrightarrow> tokens (x @ c # y) = tokens x @ tokens y"
proof (induction x rule: length_induct)
  case (1 x)
  show ?case
  proof (cases x)
    case Nil
    then show ?thesis using 1 by (simp add: tokens_space tokens_Nil)
  next
    case (Cons a x')
    show ?thesis
    proof (cases "is_space a")
      case True
      have "length x' < length x" using Cons by simp
      then have "tokens (x' @ c # y) = tokens x' @ tokens y" using 1 by blast
      then show ?thesis using Cons True by (simp add: tokens_space)
    next
      case False
      let ?r = "dropWhile (\<lambda>d. \<not> is_space d) x'"
      have "length ?r \<le> length x'" by (rule length_dropWhile_le)
      then have "length ?r < length x" using Cons by simp
      then have ih: "tokens (?r @ c # y) = tokens ?r @ tokens y" using 1 by blast
      have tw: "takeWhile (\<lambda>d. \<not> is_space d) (x' @ c # y)
                  = takeWhile (\<lambda>d. \<not> is_space d) x'"
        using "1.prems" by (intro takeWhile_stop) simp
      have dw: "dropWhile (\<lambda>d. \<not> is_space d) (x' @ c # y) = ?r @ c # y"
        using "1.prems" by (intro dropWhile_stop) simp
      show ?thesis
        using Cons False ih by (simp add: tokens_word tw dw)
    qed
  qed
qed

lemma tokens_join: "tokens (join '' '' xs) = concat (map tokens xs)"
proof (induction "'' ''" xs rule: join.induct)
  case 1
  then show ?case by (simp add: tokens_Nil)
next
  case (2 x)
  then show ?case by simp
next
  case (3 x y ys)
  have sp: "is_space (CHR '' '')" by (simp add: is_space_def)
  have "tokens (x @ CHR '' '' # join '' '' (y # ys)) = tokens x @ tokens (join '' '' (y # ys))"
    using sp by (rule tokens_sep)
  then show ?case using "3.hyps" by simp
qed

lemma tokens_trailing: "\<forall>c \<in> set w. is_space c \<Longrightarrow> tokens (x @ w) = tokens x"
proof (cases w)
  case Nil
  then show ?thesis by simp
next
  case (Cons c w')
  assume a: "\<forall>c \<in> set w. is_space c"
  then have "tokens (x @ c # w') = tokens x @ tokens w'" using Cons by (simp add: tokens_sep)
  moreover have "tokens w' = []" using a Cons by (simp add: tokens_all_space)
  ultimately show ?thesis using Cons by simp
qed

lemma tokens_strip: "tokens (strip s) = tokens s"
proof -
  let ?t = "dropWhile is_space s"
  let ?w = "rev (takeWhile is_space (rev ?t))"
  have "rev (takeWhile is_space (rev ?t) @ dropWhile is_space (rev ?t)) = ?t"
    by (simp only: takeWhile_dropWhile_id rev_rev_ident)
  then have "rev (dropWhile is_space (rev ?t)) @ ?w = ?t"
    by (simp only: rev_append)
  then have t: "?t = strip s @ ?w" by (simp only: strip_def)
  have "\<forall>c \<in> set ?w. is_space c" by (auto dest: set_takeWhileD)
  then have "tokens (strip s @ ?w) = tokens (strip s)" by (rule tokens_trailing)
  then have "tokens ?t = tokens (strip s)" using t by simp
  then show ?thesis by (simp add: tokens_dropWhile)
qed

lemma collapse_ws_word:
  "takeWhile (\<lambda>d. \<not> is_space d) (collapse_ws s) = takeWhile (\<lambda>d. \<not> is_space d) s
   \<and> dropWhile (\<lambda>d. \<not> is_space d) (collapse_ws s)
       = collapse_ws (dropWhile (\<lambda>d. \<not> is_space d) s)"
proof (induction s)
  case Nil
  then show ?case by simp
next
  case (Cons c cs)
  have sp: "is_space (CHR '' '')" by (simp add: is_space_def)
  show ?case using Cons sp by simp
qed

lemma tokens_collapse_ws: "tokens (collapse_ws s) = tokens s"
proof (induction s rule: length_induct)
  case (1 s)
  show ?case
  proof (cases s)
    case Nil
    then show ?thesis by simp
  next
    case (Cons c cs)
    have sp: "is_space (CHR '' '')" by (simp add: is_space_def)
    show ?thesis
    proof (cases "is_space c")
      case True
      have "length (dropWhile is_space cs) \<le> length cs" by (rule length_dropWhile_le)
      then have "length (dropWhile is_space cs) < length s" using Cons by simp
      then have "tokens (collapse_ws (dropWhile is_space cs)) = tokens (dropWhile is_space cs)"
        using 1 by blast
      then show ?thesis using Cons True sp by (simp add: tokens_space tokens_dropWhile)
    next
      case False
      let ?r = "dropWhile (\<lambda>d. \<not> is_space d) cs"
      have "length ?r \<le> length cs" by (rule length_dropWhile_le)
      then have "length ?r < length s" using Cons by simp
      then have "tokens (collapse_ws ?r) = tokens ?r" using 1 by blast
      then show ?thesis using Cons False by (simp add: tokens_word collapse_ws_word)
    qed
  qed
qed

lemma dropWhile_before:
  "r = [] \<or> \<not> P (hd r) \<Longrightarrow> dropWhile P (es @ r) = dropWhile P es @ r"
proof (induction es)
  case Nil
  then show ?case by (cases r) auto
next
  case (Cons e es)
  then show ?case by simp
qed

lemma collapse_dots_append:
  "r = [] \<or> hd r \<noteq> CHR ''.'' \<Longrightarrow>
   collapse_dots (w @ r) = collapse_dots w @ collapse_dots r"
proof (induction w rule: collapse_dots.induct)
  case 1
  then show ?case by simp
next
  case (2 e es)
  show ?case
  proof (cases "e = CHR ''.''")
    case True
    have "dropWhile (\<lambda>d. d = CHR ''.'') (es @ r) = dropWhile (\<lambda>d. d = CHR ''.'') es @ r"
      using "2.prems" by (intro dropWhile_before) simp
    then show ?thesis using True "2.IH"(1) "2.prems" by simp
  next
    case False
    then show ?thesis using "2.IH"(2) "2.prems" by simp
  qed
qed

lemma collapse_dots_set: "set (collapse_dots w) \<subseteq> set w"
proof (induction w rule: collapse_dots.induct)
  case 1
  then show ?case by simp
next
  case (2 e es)
  have "set (dropWhile (\<lambda>d. d = CHR ''.'') es) \<subseteq> set es"
    by (auto dest: set_dropWhileD)
  then show ?case using 2 by (cases "e = CHR ''.''") auto
qed

lemma collapse_dots_Nil: "collapse_dots w = [] \<longleftrightarrow> w = []"
  by (cases w) auto

lemma collapse_dots_hd: "is_space c \<Longrightarrow> collapse_dots (c # r) = c # collapse_dots r"
proof -
  assume "is_space c"
  moreover have "\<not> is_space (CHR ''.'')" by (simp add: is_space_def)
  ultimately have "c \<noteq> CHR ''.''" by auto
  then show ?thesis by simp
qed

lemma tokens_first_word:
  assumes "w \<noteq> []" and "\<forall>c \<in> set w. \<not> is_space c" and "r = [] \<or> is_space (hd r)"
  shows "tokens (w @ r) = w # tokens r"
proof -
  obtain a w' where w: "w = a # w'" using assms(1) by (cases w) auto
  have all: "\<forall>c \<in> set w'. \<not> is_space c" and a: "\<not> is_space a" using assms(2) w by auto
  have tr: "takeWhile (\<lambda>d. \<not> is_space d) r = []" and dr: "dropWhile (\<lambda>d. \<not> is_space d) r = r"
    using assms(3) by (cases r; auto)+
  have "takeWhile (\<lambda>d. \<not> is_space d) (w' @ r) = w'"
    using all tr by (simp add: takeWhile_append2)
  moreover have "dropWhile (\<lambda>d. \<not> is_space d) (w' @ r) = r"
    using all dr by (simp add: dropWhile_append2)
  ultimately show ?thesis using w a by (simp add: tokens_word)
qed

lemma tokens_collapse_dots: "tokens (collapse_dots s) = map collapse_dots (tokens s)"
proof (induction s rule: length_induct)
  case (1 s)
  show ?case
  proof (cases s)
    case Nil
    then show ?thesis by (simp add: tokens_Nil)
  next
    case (Cons c cs)
    show ?thesis
    proof (cases "is_space c")
      case True
      have "length cs < length s" using Cons by simp
      then have "tokens (collapse_dots cs) = map collapse_dots (tokens cs)" using 1 by blast
      moreover have "collapse_dots (c # cs) = c # collapse_dots cs"
        using True by (rule collapse_dots_hd)
      ultimately show ?thesis
        using Cons True by (simp add: tokens_space del: collapse_dots.simps)
    next
      case False
      let ?w = "c # takeWhile (\<lambda>d. \<not> is_space d) cs"
      let ?r = "dropWhile (\<lambda>d. \<not> is_space d) cs"
      have s: "s = ?w @ ?r" using Cons by simp
      have wall: "\<forall>d \<in> set ?w. \<not> is_space d" using False by (auto dest: set_takeWhileD)
      have rhd: "?r = [] \<or> is_space (hd ?r)"
        using hd_dropWhile [of "\<lambda>d. \<not> is_space d" cs] by auto
      have "\<not> is_space (CHR ''.'')" by (simp add: is_space_def)
      then have rdot: "?r = [] \<or> hd ?r \<noteq> CHR ''.''" using rhd by auto
      have split: "collapse_dots s = collapse_dots ?w @ collapse_dots ?r"
        using collapse_dots_append [OF rdot, of ?w] s by simp
      have w1: "collapse_dots ?w \<noteq> []" by (simp add: collapse_dots_Nil)
      have w2: "\<forall>d \<in> set (collapse_dots ?w). \<not> is_space d"
        using wall collapse_dots_set [of ?w] by blast
      have r2: "collapse_dots ?r = [] \<or> is_space (hd (collapse_dots ?r))"
      proof (cases ?r)
        case Nil
        then show ?thesis by (simp only: collapse_dots.simps simp_thms)
      next
        case (Cons d ds)
        then have d: "is_space d" using rhd by simp
        then have "collapse_dots (d # ds) = d # collapse_dots ds" by (rule collapse_dots_hd)
        then show ?thesis using Cons d by (simp del: collapse_dots.simps)
      qed
      have "length ?r \<le> length cs" by (rule length_dropWhile_le)
      then have "length ?r < length s" using Cons by simp
      then have ih: "tokens (collapse_dots ?r) = map collapse_dots (tokens ?r)" using 1 by blast
      have "tokens (collapse_dots s) = collapse_dots ?w # tokens (collapse_dots ?r)"
        using tokens_first_word [OF w1 w2 r2] split by simp
      moreover have "tokens s = ?w # tokens ?r"
        using Cons False by (simp add: tokens_word)
      ultimately show ?thesis using ih by simp
    qed
  qed
qed

lemma tokens_normalize_join:
  "tokens (normalize_text (join '' '' xs)) = map collapse_dots (concat (map tokens xs))"
  by (simp add: normalize_text_def tokens_strip tokens_collapse_dots tokens_collapse_ws
                tokens_join)

section \<open>Completeness of the segmentation\<close>

lemma tokens_append_last:
  assumes "xs \<noteq> []"
  shows "concat (map tokens (append_last xs (CHR '' '' # l))) = concat (map tokens xs) @ tokens l"
proof -
  have sp: "is_space (CHR '' '')" by (simp add: is_space_def)
  have "tokens (last xs @ CHR '' '' # l) = tokens (last xs) @ tokens l"
    using sp by (rule tokens_sep)
  then have "concat (map tokens (butlast xs @ [last xs @ CHR '' '' # l]))
             = concat (map tokens (butlast xs @ [last xs])) @ tokens l"
    by simp
  then show ?thesis using assms by (simp add: append_last_eq)
qed

lemma append_last_Nil: "append_last xs s = [] \<longleftrightarrow> xs = []"
  by (simp add: append_last_def)

lemma process_line_tokens:
  assumes "d \<noteq> [] \<or> p \<noteq> []"
    and "mset (concat (map tokens a)) = mset (concat (map tokens d)) + mset (concat (map tokens p))"
    and "process_line (d, p, a) raw = (d', p', a')"
  shows "(d' \<noteq> [] \<or> p' \<noteq> [])
         \<and> mset (concat (map tokens a'))
             = mset (concat (map tokens d')) + mset (concat (map tokens p'))"
  using assms
  by (auto simp: Let_def tokens_append_last append_last_Nil simp del: startswith.simps
           split: if_splits)

lemma process_first_line_tokens:
  assumes "strip raw = [] \<or> is_tagged (strip raw)"
    and "process_line ([], [], []) raw = (d', p', a')"
  shows "mset (concat (map tokens a'))
           = mset (concat (map tokens d')) + mset (concat (map tokens p'))
         \<and> (strip raw = [] \<and> d' = [] \<and> p' = [] \<and> a' = [] \<or> d' \<noteq> [] \<or> p' \<noteq> [])"
  using assms
  by (auto simp: Let_def is_tagged_def simp del: startswith.simps split: if_splits)

lemma foldl_tokens:
  assumes "d \<noteq> [] \<or> p \<noteq> []"
    and "mset (concat (map tokens a)) = mset (concat (map tokens d)) + mset (concat (map tokens p))"
    and "foldl process_line (d, p, a) ls = (d', p', a')"
  shows "mset (concat (map tokens a'))
           = mset (concat (map tokens d')) + mset (concat (map tokens p'))"
  using assms
proof (induction ls arbitrary: d p a)
  case Nil
  then show ?case by simp
next
  case (Cons raw ls)
  obtain d1 p1 a1 where st: "process_line (d, p, a) raw = (d1, p1, a1)"
    by (cases "process_line (d, p, a) raw") auto
  have inv: "(d1 \<noteq> [] \<or> p1 \<noteq> [])
     \<and> mset (concat (map tokens a1)) = mset (concat (map tokens d1)) + mset (concat (map tokens p1))"
    using Cons.prems(1,2) st by (rule process_line_tokens)
  have "foldl process_line (d1, p1, a1) ls = (d', p', a')"
    using Cons.prems(3) st by simp
  then show ?case using Cons.IH [of d1 p1 a1] inv by blast
qed

lemma foldl_first_tokens:
  assumes "case filter (\<lambda>l. l \<noteq> []) (map strip ls) of [] \<Rightarrow> True | l # rest \<Rightarrow> is_tagged l"
    and "foldl process_line ([], [], []) ls = (d', p', a')"
  shows "mset (concat (map tokens a'))
           = mset (concat (map tokens d')) + mset (concat (map tokens p'))"
  using assms
proof (induction ls)
  case Nil
  then show ?case by simp
next
  case (Cons raw ls)
  obtain d1 p1 a1 where st: "process_line ([], [], []) raw = (d1, p1, a1)"
    by (cases "process_line ([], [], []) raw") auto
  have rest: "foldl process_line (d1, p1, a1) ls = (d', p', a')"
    using Cons.prems(2) st by simp
  have tagged: "strip raw = [] \<or> is_tagged (strip raw)"
    using Cons.prems(1) by (cases "strip raw = []") simp_all
  have first: "mset (concat (map tokens a1))
           = mset (concat (map tokens d1)) + mset (concat (map tokens p1))
         \<and> (strip raw = [] \<and> d1 = [] \<and> p1 = [] \<and> a1 = [] \<or> d1 \<noteq> [] \<or> p1 \<noteq> [])"
    using tagged st by (rule process_first_line_tokens)
  show ?case
  proof (cases "d1 \<noteq> [] \<or> p1 \<noteq> []")
    case True
    then show ?thesis using first rest foldl_tokens by blast
  next
    case False
    then have e: "strip raw = []" "d1 = []" "p1 = []" "a1 = []" using first by auto
    have "case filter (\<lambda>l. l \<noteq> []) (map strip ls) of [] \<Rightarrow> True | l # rest \<Rightarrow> is_tagged l"
      using Cons.prems(1) e(1) by simp
    then show ?thesis using Cons.IH rest e by simp
  qed
qed

lemma doctor_text_eq:
  "dict_get (segment_conversation transcript) ''doctor_text'' []
     = normalize_text (join '' '' (fst (segment_lines transcript)))"
  by (cases "segment_lines transcript") (simp add: segment_conversation_def dict_get_def)

lemma patient_text_eq:
  "dict_get (segment_conversation transcript) ''patient_text'' []
     = normalize_text (join '' '' (fst (snd (segment_lines transcript))))"
  by (cases "segment_lines transcript") (simp add: segment_conversation_def dict_get_def)

lemma all_text_eq:
  "dict_get (segment_conversation transcript) ''full_text'' []
     = normalize_text (join '' '' (snd (snd (segment_lines transcript))))"
  by (cases "segment_lines transcript") (simp add: segment_conversation_def dict_get_def)

text \<open>
  C3, as the specification states it, fails: a line before the first speaker tag enters
  \<open>full_text\<close> only. For the transcript with the heading \<open>Visit notes\<close> the tokens
  \<open>Visit\<close> and \<open>notes\<close> of \<open>full_text\<close> are neither in \<open>doctor_text\<close> nor in
  \<open>patient_text\<close>.
\<close>

theorem untagged_first_line_counterexample:
  "tokens (dict_get (segment_conversation header_transcript) ''full_text'' [])
     = [''Visit'', ''notes'', ''Hi'']
   \<and> tokens (dict_get (segment_conversation header_transcript) ''doctor_text'' []) = [''Hi'']
   \<and> tokens (dict_get (segment_conversation header_transcript) ''patient_text'' []) = []"
  by code_simp

text \<open>
  C3, amended: for every transcript whose first non-blank line carries a speaker tag, the
  tokens of \<open>full_text\<close> are, with their multiplicities, the tokens of
  \<open>doctor_text\<close> together with the tokens of \<open>patient_text\<close>. For every transcript,
  \<open>full_text\<close> is the normalized join of the contents of the non-blank lines in the
  order of the source. A token is a maximal run of characters that are not whitespace.
\<close>

theorem segmentation_complete:
  "(first_line_tagged transcript \<longrightarrow>
      mset (tokens (dict_get (segment_conversation transcript) ''full_text'' []))
        = mset (tokens (dict_get (segment_conversation transcript) ''doctor_text'' []))
          + mset (tokens (dict_get (segment_conversation transcript) ''patient_text'' [])))
   \<and> dict_get (segment_conversation transcript) ''full_text'' []
       = normalize_text (join '' '' (map line_content (content_lines transcript)))"
proof -
  have tok: "mset (tokens (dict_get (segment_conversation transcript) ''full_text'' []))
        = mset (tokens (dict_get (segment_conversation transcript) ''doctor_text'' []))
          + mset (tokens (dict_get (segment_conversation transcript) ''patient_text'' []))"
    if tagged: "first_line_tagged transcript"
  proof -
    obtain d p a where st: "segment_lines transcript = (d, p, a)"
      by (cases "segment_lines transcript") auto
    have "mset (concat (map tokens a))
            = mset (concat (map tokens d)) + mset (concat (map tokens p))"
      using tagged st
      by (intro foldl_first_tokens [of "split_on (CHR 0x0A) transcript"])
         (simp_all add: first_line_tagged_def content_lines_def segment_lines_def)
    then have "mset (map collapse_dots (concat (map tokens a)))
            = mset (map collapse_dots (concat (map tokens d)))
              + mset (map collapse_dots (concat (map tokens p)))"
      by (simp only: mset_map image_mset_union)
    then show ?thesis
      using st by (simp add: all_text_eq doctor_text_eq patient_text_eq tokens_normalize_join)
  qed
  have ord: "dict_get (segment_conversation transcript) ''full_text'' []
       = normalize_text (join '' '' (map line_content (content_lines transcript)))"
    by (rule full_text_eq)
  show ?thesis using tok ord by blast
qed

lemma continued_texts:
  "dict_get (segment_conversation continued_transcript) ''full_text'' [] = ''Hi Sore neck. and back''"
  "dict_get (segment_conversation continued_transcript) ''doctor_text'' [] = ''Hi''"
  "dict_get (segment_conversation continued_transcript) ''patient_text'' []
     = ''Sore neck. and back''"
  by code_simp+

lemma continued_tagged: "first_line_tagged continued_transcript"
  by code_simp

lemma header_not_tagged: "\<not> first_line_tagged header_transcript"
  by code_simp

lemma header_full_text:
  "dict_get (segment_conversation header_transcript) ''full_text'' [] = ''Visit notes Hi''"
  by code_simp

theorem segmentation_complete_witness:
  "first_line_tagged continued_transcript
   \<and> dict_get (segment_conversation continued_transcript) ''full_text'' []
       = ''Hi Sore neck. and back''
   \<and> dict_get (segment_conversation continued_transcript) ''doctor_text'' [] = ''Hi''
   \<and> dict_get (segment_conversation continued_transcript) ''patient_text'' []
       = ''Sore neck. and back''
   \<and> mset (tokens (dict_get (segment_conversation continued_transcript) ''full_text'' []))
       = mset (tokens (dict_get (segment_conversation continued_transcript) ''doctor_text'' []))
         + mset (tokens (dict_get (segment_conversation continued_transcript) ''patient_text'' []))
   \<and> normalize_text (join '' '' (map line_content (content_lines continued_transcript)))
       = ''Hi Sore neck. and back''
   \<and> \<not> first_line_tagged header_transcript
   \<and> normalize_text (join '' '' (map line_content (content_lines header_transcript)))
       = ''Visit notes Hi''"
  using continued_tagged continued_texts header_not_tagged header_full_text
        segmentation_complete [of continued_transcript]
        segmentation_complete [of header_transcript]
  by metis


end
